theory Spec2Isabelle
  imports Main "HOL-Library.Monad_Syntax"
begin

section \<open>The watchdog's data\<close>

text \<open>
  The model follows \<^verbatim>\<open>ping-watchdog.py\<close> function by function. Python integers are
  \<open>int\<close>, Python strings are \<open>string\<close> (one \<open>char\<close> per code point, so the texts
  covered are those over code points below 256). Exceptions are values of \<open>error\<close>;
  a function that can raise returns \<open>error + 'a\<close> together with the state it leaves.
\<close>

datatype error = SystemExit int | ValueError | OSError | OverflowError | UnicodeDecodeError

text \<open>
  The settings the decision code reads from \<^verbatim>\<open>cfg.config[section][key]\<close>. The
  source converts the numeric ones with \<^verbatim>\<open>int(...)\<close> where it uses them; the record
  holds the converted values (configuration syntax is outside this development).
\<close>

record config =
  host :: string
  attempts :: int
  timeout :: int
  retries :: int
  retry_wait :: int
  max_reboots_per_day :: int
  reboot_cmd_nix :: string
  reboot_cmd_win :: string
  pushover_user_key :: string
  pushover_api_token :: string
  log_file :: string

text \<open>
  The messages of \<^verbatim>\<open>logger.debug\<close>, by call site, with the values they are
  formatted with:
  \<^item> \<open>Pinging h\<close>: \<^verbatim>\<open>'pinging %s' % host\<close>
  \<^item> \<open>WaitingRetry w\<close>: \<^verbatim>\<open>"waiting %ss for the next ping retry" % retry_wait\<close>
  \<^item> \<open>FailedAttempts n\<close>: \<^verbatim>\<open>"ping failed attempts: %s" % failed_attempts\<close>
  \<^item> \<open>NumReboots n\<close>: \<^verbatim>\<open>"number of reboot attemps in the last 24h: %s " % reboots\<close>
  \<^item> \<open>PushoverNotConfigured\<close>: \<^verbatim>\<open>'pushover not properly configured'\<close>
  \<^item> \<open>PushoverFailed\<close>: \<^verbatim>\<open>'failed sending pushover notification'\<close>
  \<^item> \<open>PushoverSent\<close>: \<^verbatim>\<open>'push notification sent'\<close>
\<close>

datatype dmsg =
    Pinging string
  | WaitingRetry int
  | FailedAttempts int
  | NumReboots int
  | PushoverNotConfigured
  | PushoverFailed
  | PushoverSent

text \<open>
  What one run does to the outside world, in order:
  \<^item> \<open>Debug m\<close>: \<^verbatim>\<open>logger.debug\<close> (console only, the file handler's level is FATAL);
  \<^item> \<open>Fatal m\<close>: \<^verbatim>\<open>logger.fatal(m)\<close> (console, and one line appended to the log file);
  \<^item> \<open>PingCmd c t h out\<close>: \<^verbatim>\<open>os.system('%s %i %s > %s 2>&1' % (c, t, h, out))\<close>;
  \<^item> \<open>Sleep n\<close>: \<^verbatim>\<open>time.sleep(n)\<close>;
  \<^item> \<open>LoggerCmd m\<close>: \<^verbatim>\<open>os.system('logger "%s"' % m)\<close>;
  \<^item> \<open>RebootCmd c\<close>: \<^verbatim>\<open>os.system(c)\<close> in \<^verbatim>\<open>send_reboot_cmd\<close>;
  \<^item> \<open>ReadLog p\<close>: \<^verbatim>\<open>open(p, 'r')\<close> has succeeded in \<^verbatim>\<open>num_reboots_24h\<close> and the
    file is read;
  \<^item> \<open>HttpsPost m u t\<close>: the POST of \<^verbatim>\<open>{"message": m, "user": u, "token": t}\<close>
    to api.pushover.net.
\<close>

datatype event =
    Debug dmsg
  | Fatal string
  | PingCmd string int string string
  | Sleep int
  | LoggerCmd string
  | RebootCmd string
  | ReadLog string
  | HttpsPost string string string

text \<open>
  The push request either yields a response with a status, or something inside the
  \<^verbatim>\<open>try\<close> block raises.
\<close>

datatype http_outcome = Status int | Raised

text \<open>
  What the outside world answers:
  \<^item> \<open>os_nt\<close>: \<^verbatim>\<open>os.name == 'nt'\<close>;
  \<^item> \<open>ping_on_path\<close>: \<^verbatim>\<open>is_tool('ping')\<close>;
  \<^item> \<open>ping_status k\<close>: the exit status \<^verbatim>\<open>os.system\<close> returns for the \<open>k\<close>-th ping
    command of the run (counted from 0);
  \<^item> \<open>reboot_status\<close>: the exit status of the reboot command;
  \<^item> \<open>now\<close>: \<^verbatim>\<open>datetime.today()\<close>, as a position on the time line (see below);
  \<^item> \<open>asctime k\<close>: the \<^verbatim>\<open>%(asctime)s\<close> text the log formatter produces for a record
    emitted after \<open>k\<close> earlier events;
  \<^item> \<open>hostname\<close>: \<^verbatim>\<open>socket.gethostname()\<close>;
  \<^item> \<open>https\<close>: the outcome of the push request;
  \<^item> \<open>logger_path\<close>: the file the logger's \<^verbatim>\<open>FileHandler\<close> appends to
    (\<^verbatim>\<open>MyLog.log_file\<close>);
  \<^item> \<open>decode raw\<close>: the text that the codec of the locale's encoding (the default of
    \<^verbatim>\<open>open\<close>) makes of the bytes \<open>raw\<close>, or \<open>None\<close> where it raises
    UnicodeDecodeError.
\<close>

record env =
  os_nt :: bool
  ping_on_path :: bool
  ping_status :: "nat \<Rightarrow> int"
  reboot_status :: int
  now :: int
  asctime :: "nat \<Rightarrow> string"
  hostname :: string
  https :: http_outcome
  logger_path :: string
  decode :: "string \<Rightarrow> string option"

text \<open>
  The state a run changes: the files by path (each the bytes it holds), the number of
  ping commands issued so far, and the events so far, oldest first.
\<close>

record state =
  files :: "string \<rightharpoonup> string"
  npings :: nat
  trace :: "event list"

section \<open>Logging\<close>

definition log_msg :: string where
  "log_msg = ''(ping-watchdog) ping failed. requesting reboot''"

definition emit :: "event \<Rightarrow> state \<Rightarrow> state" where
  "emit e s = s\<lparr>trace := trace s @ [e]\<rparr>"

definition log_debug :: "dmsg \<Rightarrow> state \<Rightarrow> state" where
  "log_debug m s = emit (Debug m) s"

text \<open>
  \<^verbatim>\<open>logger.fatal(msg)\<close>: the file handler (mode \<^verbatim>\<open>'a'\<close>, format
  \<^verbatim>\<open>'%(asctime)s | %(message)s'\<close>) appends one line to its file. The messages and
  the default \<^verbatim>\<open>asctime\<close> are ASCII, so the bytes written are the line's characters.
\<close>

definition log_line :: "env \<Rightarrow> state \<Rightarrow> string \<Rightarrow> string" where
  "log_line e s msg = asctime e (length (trace s)) @ '' | '' @ msg @ [CHR 0x0A]"

definition log_fatal :: "env \<Rightarrow> string \<Rightarrow> state \<Rightarrow> state" where
  "log_fatal e msg s =
     emit (Fatal msg)
       (s\<lparr>files := (files s)(logger_path e \<mapsto>
            (case files s (logger_path e) of None \<Rightarrow> [] | Some old \<Rightarrow> old) @ log_line e s msg)\<rparr>)"

section \<open>Probing: \<^verbatim>\<open>ping_attempts\<close> and \<^verbatim>\<open>ping_host\<close>\<close>

text \<open>
  One pass of the \<^verbatim>\<open>for\<close> loop of \<^verbatim>\<open>ping_attempts\<close>: the debug line, the ping
  command, and the count of non-zero exit statuses.
\<close>

definition ping_once :: "config \<Rightarrow> env \<Rightarrow> int \<times> state \<Rightarrow> int \<times> state" where
  "ping_once cfg e fs =
     (case fs of (failed_attempts, s) \<Rightarrow>
        let s1 = log_debug (Pinging (host cfg)) s;
            result = ping_status e (npings s1);
            s2 = emit (PingCmd (if os_nt e then ''ping -n 1 -w'' else ''ping -c 1 -W'')
                        (timeout cfg) (host cfg)
                        (if os_nt e then ''NUL'' else ''/dev/null''))
                   (s1\<lparr>npings := Suc (npings s1)\<rparr>)
        in (if result \<noteq> 0 then failed_attempts + 1 else failed_attempts, s2))"

primrec ping_loop :: "config \<Rightarrow> env \<Rightarrow> nat \<Rightarrow> int \<times> state \<Rightarrow> int \<times> state" where
  "ping_loop cfg e 0 fs = fs"
| "ping_loop cfg e (Suc n) fs = ping_loop cfg e n (ping_once cfg e fs)"

text \<open>
  \<^verbatim>\<open>range(0, 2 * attempts)\<close> has \<open>nat (2 * attempts)\<close> elements (none when
  \<open>attempts \<le> 0\<close>).
\<close>

definition ping_attempts :: "config \<Rightarrow> env \<Rightarrow> state \<Rightarrow> (error + int) \<times> state" where
  "ping_attempts cfg e s =
     (if \<not> ping_on_path e
      then (Inl (SystemExit 1), log_fatal e ''ping command not found'' s)
      else (case ping_loop cfg e (nat (2 * attempts cfg)) (0, s) of
              (failed_attempts, s') \<Rightarrow> (Inr failed_attempts, s')))"

text \<open>
  The wait before a retry: the debug line, then \<^verbatim>\<open>time.sleep\<close>, which raises
  ValueError for a negative length.
\<close>

definition retry_sleep :: "config \<Rightarrow> state \<Rightarrow> (error + unit) \<times> state" where
  "retry_sleep cfg s =
     (let s1 = log_debug (WaitingRetry (retry_wait cfg)) s
      in if retry_wait cfg < 0 then (Inl ValueError, s1)
         else (Inr (), emit (Sleep (retry_wait cfg)) s1))"

text \<open>The \<^verbatim>\<open>while count < retries\<close> loop of \<^verbatim>\<open>ping_host\<close>, from a given \<open>count\<close>.\<close>

function ping_host_loop :: "config \<Rightarrow> env \<Rightarrow> int \<Rightarrow> state \<Rightarrow> (error + bool) \<times> state" where
  "ping_host_loop cfg e count s =
     (if count < retries cfg then
        (case (if count > 0 then retry_sleep cfg s else (Inr (), s)) of
           (Inl err, s1) \<Rightarrow> (Inl err, s1)
         | (Inr _, s1) \<Rightarrow>
             (case ping_attempts cfg e s1 of
                (Inl err, s2) \<Rightarrow> (Inl err, s2)
              | (Inr failed_attempts, s2) \<Rightarrow>
                  (let s3 = log_debug (FailedAttempts failed_attempts) s2
                   in if failed_attempts \<le> attempts cfg then (Inr True, s3)
                      else ping_host_loop cfg e (count + 1) s3)))
      else (Inr False, s))"
  by pat_completeness auto
termination
  by (relation "measure (\<lambda>(cfg, e, count, s). nat (retries cfg - count))") auto

declare ping_host_loop.simps [simp del]

definition ping_host :: "config \<Rightarrow> env \<Rightarrow> state \<Rightarrow> (error + bool) \<times> state" where
  "ping_host cfg e s = ping_host_loop cfg e 0 s"

section \<open>Reading the log: \<^verbatim>\<open>num_reboots_24h\<close>\<close>

subsection \<open>String operations\<close>

text \<open>
  \<^verbatim>\<open>str.split(sep)\<close> for a one-character separator: the pieces between the
  separators, always at least one piece.
\<close>

fun split_on :: "char \<Rightarrow> string \<Rightarrow> string list" where
  "split_on sep [] = [[]]"
| "split_on sep (c # cs) =
     (if c = sep then [] # split_on sep cs
      else (case split_on sep cs of
              [] \<Rightarrow> [[c]]
            | piece # pieces \<Rightarrow> (c # piece) # pieces))"

text \<open>\<^verbatim>\<open>str.find(sub)\<close>: the lowest index where \<open>sub\<close> starts, or \<open>-1\<close>.\<close>

fun find_from :: "string \<Rightarrow> string \<Rightarrow> int \<Rightarrow> int" where
  "find_from sub [] i = (if sub = [] then i else - 1)"
| "find_from sub (c # cs) i =
     (if take (length sub) (c # cs) = sub then i else find_from sub cs (i + 1))"

definition str_find :: "string \<Rightarrow> string \<Rightarrow> int" where
  "str_find s sub = find_from sub s 0"

text \<open>
  The file is opened in text mode, so \<^verbatim>\<open>\r\n\<close> and a lone \<^verbatim>\<open>\r\<close> are read as
  \<^verbatim>\<open>\n\<close>; \<^verbatim>\<open>readlines()\<close> cuts after every \<^verbatim>\<open>\n\<close> and keeps it.
\<close>

fun universal_newlines :: "string \<Rightarrow> string" where
  "universal_newlines [] = []"
| "universal_newlines [c] = (if c = CHR 0x0D then [CHR 0x0A] else [c])"
| "universal_newlines (c # d # cs) =
     (if c = CHR 0x0D \<and> d = CHR 0x0A then CHR 0x0A # universal_newlines cs
      else if c = CHR 0x0D then CHR 0x0A # universal_newlines (d # cs)
      else c # universal_newlines (d # cs))"

fun readlines :: "string \<Rightarrow> string list" where
  "readlines [] = []"
| "readlines (c # cs) =
     (if c = CHR 0x0A then [c] # readlines cs
      else (case readlines cs of
              [] \<Rightarrow> [[c]]
            | l # ls \<Rightarrow> (c # l) # ls))"

subsection \<open>Dates\<close>

text \<open>
  A naive \<^verbatim>\<open>datetime\<close> is represented by its position on the proleptic Gregorian
  time line, in microseconds, where day number 1 (\<^verbatim>\<open>toordinal()\<close>) is 0001-01-01.
  Python defines \<^verbatim>\<open>datetime - timedelta\<close> through this position, and the order of
  naive datetimes (field by field) is the order of their positions. The calendar
  functions are those of \<^verbatim>\<open>datetime.py\<close>.
\<close>

type_synonym datetime = int

definition is_leap :: "int \<Rightarrow> bool" where
  "is_leap year = (year mod 4 = 0 \<and> (year mod 100 \<noteq> 0 \<or> year mod 400 = 0))"

definition DAYS_IN_MONTH :: "int list" where
  "DAYS_IN_MONTH = [31, 28, 31, 30, 31, 30, 31, 31, 30, 31, 30, 31]"

definition days_in_month :: "int \<Rightarrow> int \<Rightarrow> int" where
  "days_in_month year month =
     (if month = 2 \<and> is_leap year then 29 else DAYS_IN_MONTH ! nat (month - 1))"

definition days_before_year :: "int \<Rightarrow> int" where
  "days_before_year year =
     (let y = year - 1 in y * 365 + y div 4 - y div 100 + y div 400)"

definition days_before_month :: "int \<Rightarrow> int \<Rightarrow> int" where
  "days_before_month year month =
     sum_list (take (nat (month - 1)) DAYS_IN_MONTH) + (if month > 2 \<and> is_leap year then 1 else 0)"

definition ymd2ord :: "int \<Rightarrow> int \<Rightarrow> int \<Rightarrow> int" where
  "ymd2ord year month day = days_before_year year + days_before_month year month + day"

definition second_us :: int where "second_us = 1000000"
definition hour_us :: int where "hour_us = 3600 * second_us"
definition day_us :: int where "day_us = 24 * hour_us"
definition MAXORDINAL :: int where "MAXORDINAL = 3652059"

text \<open>
  The constructor \<^verbatim>\<open>datetime(year, month, day, hour, minute, second, microsecond)\<close>:
  ValueError when a field is out of range.
\<close>

definition datetime :: "int \<Rightarrow> int \<Rightarrow> int \<Rightarrow> int \<Rightarrow> int \<Rightarrow> int \<Rightarrow> int \<Rightarrow> error + datetime" where
  "datetime year month day hour minute second microsecond =
     (if 1 \<le> year \<and> year \<le> 9999 \<and> 1 \<le> month \<and> month \<le> 12
         \<and> 1 \<le> day \<and> day \<le> days_in_month year month
         \<and> 0 \<le> hour \<and> hour \<le> 23 \<and> 0 \<le> minute \<and> minute \<le> 59
         \<and> 0 \<le> second \<and> second \<le> 59 \<and> 0 \<le> microsecond \<and> microsecond \<le> 999999
      then Inr (ymd2ord year month day * day_us + hour * hour_us + minute * 60 * second_us
                + second * second_us + microsecond)
      else Inl ValueError)"

text \<open>
  \<^verbatim>\<open>dt - timedelta(hours=h)\<close>: OverflowError when the day number of the result is
  not in \<open>1..MAXORDINAL\<close>.
\<close>

definition datetime_sub_hours :: "datetime \<Rightarrow> int \<Rightarrow> error + datetime" where
  "datetime_sub_hours dt h =
     (let r = dt - h * hour_us
      in if 0 < r div day_us \<and> r div day_us \<le> MAXORDINAL then Inr r else Inl OverflowError)"

subsection \<open>\<^verbatim>\<open>datetime.strptime(dt, '%Y-%m-%d %H:%M:%S')\<close>\<close>

text \<open>
  \<^verbatim>\<open>_strptime\<close> turns the format into the regular expression
  \<^verbatim>\<open>(?P<Y>\d\d\d\d)-(?P<m>1[0-2]|0[1-9]|[1-9])-(?P<d>3[0-1]|[1-2]\d|0[1-9]|[1-9]| [1-9])\s+(?P<H>2[0-3]|[0-1]\d|\d):(?P<M>[0-5]\d|\d):(?P<S>6[0-1]|[0-5]\d|\d)\<close>,
  matches it at the start of the text, and raises ValueError when it does not match or
  when text remains after the match. A piece of the expression is modelled by the list
  of its possible matches, in the order the backtracking matcher tries them, each with
  the text that remains; the match \<^verbatim>\<open>re.match\<close> reports is the first of the whole
  sequence. Among the code points below 256, \<^verbatim>\<open>\d\<close> matches the ASCII digits and
  \<^verbatim>\<open>\s\<close> the characters of \<open>is_space\<close>.
\<close>

definition in_class :: "char \<Rightarrow> char \<Rightarrow> char \<Rightarrow> bool" where
  "in_class lo hi c = ((of_char lo :: nat) \<le> of_char c \<and> (of_char c :: nat) \<le> of_char hi)"

definition is_digit :: "char \<Rightarrow> bool" where
  "is_digit c = in_class CHR ''0'' CHR ''9'' c"

definition is_space :: "char \<Rightarrow> bool" where
  "is_space c = (in_class CHR 0x09 CHR 0x0D c \<or> in_class CHR 0x1C CHR 0x20 c
                 \<or> c = CHR 0x85 \<or> c = CHR 0xA0)"

fun re_one :: "(char \<Rightarrow> bool) \<Rightarrow> string \<Rightarrow> (string \<times> string) list" where
  "re_one p (a # cs) = (if p a then [([a], cs)] else [])"
| "re_one p [] = []"

fun re_two :: "(char \<Rightarrow> bool) \<Rightarrow> (char \<Rightarrow> bool) \<Rightarrow> string \<Rightarrow> (string \<times> string) list" where
  "re_two p q (a # b # cs) = (if p a \<and> q b then [([a, b], cs)] else [])"
| "re_two p q [a] = []"
| "re_two p q [] = []"

fun re_lit :: "char \<Rightarrow> string \<Rightarrow> string list" where
  "re_lit l (a # cs) = (if a = l then [cs] else [])"
| "re_lit l [] = []"

text \<open>\<^verbatim>\<open>\s+\<close> is greedy: the longest run of spaces first, then the shorter ones.\<close>

fun re_spaces :: "string \<Rightarrow> string list" where
  "re_spaces (a # cs) = (if is_space a then re_spaces cs @ [cs] else [])"
| "re_spaces [] = []"

definition re_Y :: "string \<Rightarrow> (string \<times> string) list" where
  "re_Y s =
     (case s of
        a # b # c # d # cs \<Rightarrow>
          (if is_digit a \<and> is_digit b \<and> is_digit c \<and> is_digit d then [([a, b, c, d], cs)] else [])
      | _ \<Rightarrow> [])"

definition re_m :: "string \<Rightarrow> (string \<times> string) list" where
  "re_m s = re_two (\<lambda>c. c = CHR ''1'') (in_class CHR ''0'' CHR ''2'') s
          @ re_two (\<lambda>c. c = CHR ''0'') (in_class CHR ''1'' CHR ''9'') s
          @ re_one (in_class CHR ''1'' CHR ''9'') s"

definition re_d :: "string \<Rightarrow> (string \<times> string) list" where
  "re_d s = re_two (\<lambda>c. c = CHR ''3'') (in_class CHR ''0'' CHR ''1'') s
          @ re_two (in_class CHR ''1'' CHR ''2'') is_digit s
          @ re_two (\<lambda>c. c = CHR ''0'') (in_class CHR ''1'' CHR ''9'') s
          @ re_one (in_class CHR ''1'' CHR ''9'') s
          @ re_two (\<lambda>c. c = CHR '' '') (in_class CHR ''1'' CHR ''9'') s"

definition re_H :: "string \<Rightarrow> (string \<times> string) list" where
  "re_H s = re_two (\<lambda>c. c = CHR ''2'') (in_class CHR ''0'' CHR ''3'') s
          @ re_two (in_class CHR ''0'' CHR ''1'') is_digit s
          @ re_one is_digit s"

definition re_M :: "string \<Rightarrow> (string \<times> string) list" where
  "re_M s = re_two (in_class CHR ''0'' CHR ''5'') is_digit s
          @ re_one is_digit s"

definition re_S :: "string \<Rightarrow> (string \<times> string) list" where
  "re_S s = re_two (\<lambda>c. c = CHR ''6'') (in_class CHR ''0'' CHR ''1'') s
          @ re_two (in_class CHR ''0'' CHR ''5'') is_digit s
          @ re_one is_digit s"

definition strptime_matches :: "string \<Rightarrow> ((string \<times> string \<times> string \<times> string \<times> string \<times> string) \<times> string) list" where
  "strptime_matches data_string = do {
     (Y, s1) \<leftarrow> re_Y data_string;
     s2 \<leftarrow> re_lit CHR ''-'' s1;
     (m, s3) \<leftarrow> re_m s2;
     s4 \<leftarrow> re_lit CHR ''-'' s3;
     (d, s5) \<leftarrow> re_d s4;
     s6 \<leftarrow> re_spaces s5;
     (H, s7) \<leftarrow> re_H s6;
     s8 \<leftarrow> re_lit CHR '':'' s7;
     (M, s9) \<leftarrow> re_M s8;
     s10 \<leftarrow> re_lit CHR '':'' s9;
     (S, s11) \<leftarrow> re_S s10;
     [((Y, m, d, H, M, S), s11)]
   }"

text \<open>
  \<^verbatim>\<open>int(group)\<close> on a matched group: decimal digits, after the leading space the
  day group may hold.
\<close>

definition group_int :: "string \<Rightarrow> int" where
  "group_int g = foldl (\<lambda>n c. 10 * n + (int (of_char c) - 48)) 0 (dropWhile is_space g)"

definition strptime :: "string \<Rightarrow> error + datetime" where
  "strptime data_string =
     (case strptime_matches data_string of
        [] \<Rightarrow> Inl ValueError
      | ((Y, m, d, H, M, S), rest) # _ \<Rightarrow>
          if rest \<noteq> [] then Inl ValueError
          else datetime (group_int Y) (group_int m) (group_int d)
                        (group_int H) (group_int M) (group_int S) 0)"

subsection \<open>The scan\<close>

text \<open>
  The two lines marked \<^verbatim>\<open># discard milisecs\<close>: \<^verbatim>\<open>dt, *_ = dt.split(',')\<close> and
  \<^verbatim>\<open>dt, *_ = dt.split('.')\<close> keep the first piece (\<open>split_on\<close> always yields one).
\<close>

definition discard_millisecs :: "string \<Rightarrow> string" where
  "discard_millisecs dt = hd (split_on CHR ''.'' (hd (split_on CHR '','' dt)))"

text \<open>
  The body of the \<^verbatim>\<open>try\<close> block for one line. \<^verbatim>\<open>dt, rest = line.split('|')\<close>
  raises ValueError unless there are exactly two pieces. The result is the date to
  append to \<^verbatim>\<open>dt_lst\<close>, if any.
\<close>

definition scan_line :: "string \<Rightarrow> error + datetime option" where
  "scan_line line =
     (case split_on CHR ''|'' line of
        [dt, rest] \<Rightarrow>
          if str_find rest log_msg \<noteq> - 1 then
            (case strptime (discard_millisecs dt) of
               Inl err \<Rightarrow> Inl err
             | Inr log_date \<Rightarrow> Inr (Some log_date))
          else Inr None
      | _ \<Rightarrow> Inl ValueError)"

text \<open>
  The \<^verbatim>\<open>for line in lines\<close> loop with its \<^verbatim>\<open>except Exception: continue\<close>: an
  exception leaves \<^verbatim>\<open>dt_lst\<close> as it is and the loop goes on.
\<close>

fun scan_lines :: "string list \<Rightarrow> datetime list \<Rightarrow> datetime list" where
  "scan_lines [] dt_lst = dt_lst"
| "scan_lines (line # lines) dt_lst =
     (case scan_line line of
        Inl err \<Rightarrow> scan_lines lines dt_lst
      | Inr None \<Rightarrow> scan_lines lines dt_lst
      | Inr (Some log_date) \<Rightarrow> scan_lines lines (dt_lst @ [log_date]))"

text \<open>The \<^verbatim>\<open>for log_date in dt_lst\<close> loop.\<close>

fun count_recent :: "datetime \<Rightarrow> datetime list \<Rightarrow> int \<Rightarrow> int" where
  "count_recent yesterday [] count = count"
| "count_recent yesterday (log_date # dt_lst) count =
     count_recent yesterday dt_lst (if log_date > yesterday then count + 1 else count)"

text \<open>
  \<^verbatim>\<open>open\<close> and \<^verbatim>\<open>f.readlines()\<close> stand before the \<^verbatim>\<open>try\<close> block: a file that cannot
  be opened raises OSError, and bytes the locale's codec does not decode raise
  UnicodeDecodeError, both out of \<^verbatim>\<open>num_reboots_24h\<close>.
\<close>

definition num_reboots_24h :: "config \<Rightarrow> env \<Rightarrow> state \<Rightarrow> (error + int) \<times> state" where
  "num_reboots_24h cfg e s =
     (case files s (log_file cfg) of
        None \<Rightarrow> (Inl OSError, s)
      | Some raw \<Rightarrow>
          (let s1 = emit (ReadLog (log_file cfg)) s
           in case decode e raw of
                None \<Rightarrow> (Inl UnicodeDecodeError, s1)
              | Some content \<Rightarrow>
                  (let lines = readlines (universal_newlines content);
                       dt_lst = scan_lines lines []
                   in case datetime_sub_hours (now e) 24 of
                        Inl err \<Rightarrow> (Inl err, s1)
                      | Inr yesterday \<Rightarrow> (Inr (count_recent yesterday dt_lst 0), s1))))"

section \<open>Notifying and rebooting\<close>

text \<open>\<^verbatim>\<open>MyLog.notify\<close>: the marker line, and the system logger except on Windows.\<close>

definition MyLog_notify :: "env \<Rightarrow> state \<Rightarrow> state" where
  "MyLog_notify e s =
     (let s1 = log_fatal e log_msg s
      in if \<not> os_nt e then emit (LoggerCmd log_msg) s1 else s1)"

record Pushover =
  key :: string
  token :: string

text \<open>
  \<^verbatim>\<open>Pushover.notify\<close>. The bare \<^verbatim>\<open>except:\<close> turns whatever the request raises into
  \<^verbatim>\<open>sent = False\<close>. Before the \<^verbatim>\<open>try\<close> block only the host name is looked up
  (\<open>hostname\<close>, taken to succeed) and the message is built.
\<close>

definition Pushover_notify :: "Pushover \<Rightarrow> env \<Rightarrow> state \<Rightarrow> state" where
  "Pushover_notify self e s =
     (if length (key self) < 30 \<or> length (token self) < 30
      then log_debug PushoverNotConfigured s
      else (let text = ''ping failed. performing reboot for '' @ hostname e;
                s1 = emit (HttpsPost text (key self) (token self)) s;
                sent = (case https e of Status st \<Rightarrow> st = 200 | Raised \<Rightarrow> False)
            in if \<not> sent then log_debug PushoverFailed s1
               else log_debug PushoverSent s1))"

definition send_reboot_cmd :: "config \<Rightarrow> env \<Rightarrow> state \<Rightarrow> bool \<times> state" where
  "send_reboot_cmd cfg e s =
     (let cmd = (if os_nt e then reboot_cmd_win cfg else reboot_cmd_nix cfg);
          s1 = emit (RebootCmd cmd) s;
          result = reboot_status e
      in if result \<noteq> 0 then (False, s1) else (True, s1))"

definition notify_and_reboot :: "config \<Rightarrow> env \<Rightarrow> state \<Rightarrow> (error + unit) \<times> state" where
  "notify_and_reboot cfg e s =
     (case num_reboots_24h cfg e s of
        (Inl err, s1) \<Rightarrow> (Inl err, s1)
      | (Inr reboots, s1) \<Rightarrow>
          (let s2 = log_debug (NumReboots reboots) s1
           in if reboots \<ge> max_reboots_per_day cfg
              then (Inr (), log_fatal e ''reboot canceled. max reboots allowed in 24h reached'' s2)
              else (let s3 = MyLog_notify e s2;
                        push = \<lparr>key = pushover_user_key cfg, token = pushover_api_token cfg\<rparr>;
                        s4 = Pushover_notify push e s3
                    in case send_reboot_cmd cfg e s4 of
                         (ok, s5) \<Rightarrow>
                           if \<not> ok then (Inr (), log_fatal e ''reboot command failed'' s5)
                           else (Inr (), s5))))"

text \<open>
  The decision at the end of \<^verbatim>\<open>main\<close>, once the logger and the configuration are set
  up: \<^verbatim>\<open>if ping_host(config): logger.fatal("no reboot required")
  else: notify_and_reboot(config)\<close>.
\<close>

definition main :: "config \<Rightarrow> env \<Rightarrow> state \<Rightarrow> (error + unit) \<times> state" where
  "main cfg e s =
     (case ping_host cfg e s of
        (Inl err, s1) \<Rightarrow> (Inl err, s1)
      | (Inr reachable, s1) \<Rightarrow>
          if reachable then (Inr (), log_fatal e ''no reboot required'' s1)
          else notify_and_reboot cfg e s1)"

text \<open>
  The settings \<^verbatim>\<open>main\<close> writes to a new configuration file (\<^verbatim>\<open>config_items\<close>), for a
  given log file path.
\<close>

definition config_items :: "string \<Rightarrow> config" where
  "config_items lf =
     \<lparr>host = ''127.0.0.1'', attempts = 4, timeout = 2, retries = 2, retry_wait = 60,
      max_reboots_per_day = 3,
      reboot_cmd_nix = ''sudo /sbin/shutdown --no-wall --reboot +2'',
      reboot_cmd_win = ''shutdown /r /t 120'',
      pushover_user_key = [], pushover_api_token = [],
      log_file = lf\<rparr>"

section \<open>Reading a run's events\<close>

text \<open>The events a run added, given the state before and the state after.\<close>

definition events_since :: "state \<Rightarrow> state \<Rightarrow> event list" where
  "events_since s s' = drop (length (trace s)) (trace s')"

fun is_ping :: "event \<Rightarrow> bool" where
  "is_ping (PingCmd c t h out) = True"
| "is_ping _ = False"

text \<open>The number of ping commands among some events.\<close>

definition probes :: "event list \<Rightarrow> nat" where
  "probes es = length (filter is_ping es)"

text \<open>
  Every round of \<^verbatim>\<open>ping_host\<close> that completes logs its failure count once
  (\<open>FailedAttempts\<close>); \<open>rounds es\<close> lists these counts in order, one per round.
\<close>

fun round_of :: "event \<Rightarrow> int list" where
  "round_of (Debug (FailedAttempts n)) = [n]"
| "round_of _ = []"

definition rounds :: "event list \<Rightarrow> int list" where
  "rounds es = concat (map round_of es)"

text \<open>
  The number of failing probes among the \<open>n\<close> ping commands that start at the
  \<open>p\<close>-th of the run.
\<close>

definition failures_from :: "env \<Rightarrow> nat \<Rightarrow> nat \<Rightarrow> int" where
  "failures_from e p n = int (length (filter (\<lambda>k. ping_status e k \<noteq> 0) [p ..< p + n]))"

text \<open>
  The three actions of the reboot path: the local notification of \<^verbatim>\<open>MyLog.notify\<close>
  (the marker line and the system logger), the push request, the reboot command.
\<close>

fun is_local_notification :: "event \<Rightarrow> bool" where
  "is_local_notification (Fatal m) = (m = log_msg)"
| "is_local_notification (LoggerCmd m) = True"
| "is_local_notification _ = False"

fun is_push :: "event \<Rightarrow> bool" where
  "is_push (HttpsPost m u t) = True"
| "is_push _ = False"

fun is_reboot :: "event \<Rightarrow> bool" where
  "is_reboot (RebootCmd c) = True"
| "is_reboot _ = False"

fun is_fatal :: "event \<Rightarrow> bool" where
  "is_fatal (Fatal m) = True"
| "is_fatal _ = False"

text \<open>The events of probing: debug lines, ping commands and sleeps.\<close>

fun is_probing :: "event \<Rightarrow> bool" where
  "is_probing (Debug m) = True"
| "is_probing (PingCmd c t h out) = True"
| "is_probing (Sleep n) = True"
| "is_probing _ = False"

fun is_read_log :: "event \<Rightarrow> bool" where
  "is_read_log (ReadLog p) = True"
| "is_read_log _ = False"

section \<open>The specification's reading of the log\<close>

text \<open>
  The specification has log lines of the form \<^verbatim>\<open>"<timestamp> | <message>"\<close>: the
  timestamp field is the text before the first \<^verbatim>\<open>" | "\<close>, the message field the text
  after it.
\<close>

fun spec_fields :: "string \<Rightarrow> (string \<times> string) option" where
  "spec_fields [] = None"
| "spec_fields (c # cs) =
     (if take 3 (c # cs) = '' | '' then Some ([], drop 3 (c # cs))
      else (case spec_fields cs of
              None \<Rightarrow> None
            | Some (ts, msg) \<Rightarrow> Some (c # ts, msg)))"

text \<open>
  A line the specification counts, for a clock reading \<open>today\<close>: the message field
  contains the marker text, and the timestamp field, with any sub-second fraction
  stripped, parses as \<^verbatim>\<open>YYYY-MM-DD HH:MM:SS\<close> to a time strictly later than \<open>today\<close>
  minus 24 hours.
\<close>

definition spec_counted_line :: "datetime \<Rightarrow> string \<Rightarrow> bool" where
  "spec_counted_line today line =
     (case spec_fields line of
        None \<Rightarrow> False
      | Some (ts, msg) \<Rightarrow>
          str_find msg log_msg \<noteq> - 1
          \<and> (case strptime (takeWhile (\<lambda>c. c \<noteq> CHR '','' \<and> c \<noteq> CHR ''.'') ts) of
                Inl err \<Rightarrow> False
              | Inr t \<Rightarrow> t > today - 24 * hour_us))"

text \<open>
  A line the code counts: exactly one \<^verbatim>\<open>|\<close>; the text after it contains the marker;
  the text before it, cut at its first \<^verbatim>\<open>,\<close> or \<^verbatim>\<open>.\<close>, is in full a text that
  \<^verbatim>\<open>strptime\<close> accepts (so a timestamp that has no fraction, and is therefore
  followed by the blank of \<^verbatim>\<open>" | "\<close>, is not), with a time strictly later than
  \<open>today\<close> minus 24 hours.
\<close>

definition counted_line :: "datetime \<Rightarrow> string \<Rightarrow> bool" where
  "counted_line today line =
     (\<exists>ts msg t. line = ts @ CHR ''|'' # msg \<and> CHR ''|'' \<notin> set ts \<and> CHR ''|'' \<notin> set msg
         \<and> (\<exists>before after. msg = before @ log_msg @ after)
         \<and> strptime (takeWhile (\<lambda>c. c \<noteq> CHR '','' \<and> c \<noteq> CHR ''.'') ts) = Inr t
         \<and> t > today - 24 * hour_us)"

subsection \<open>The log as the logger writes it\<close>

text \<open>
  A timestamp by its fields: year, month, day, hour, minute, second and millisecond.
  Its place in time is counted from the calendar directly: a year is a leap year when
  it is divisible by 4 and not by 100, or by 400; the day number adds up the lengths of
  the years and of the months that went before.
\<close>

datatype stamp = Stamp nat nat nat nat nat nat nat

definition leap_year :: "nat \<Rightarrow> bool" where
  "leap_year y = (4 dvd y \<and> (\<not> 100 dvd y \<or> 400 dvd y))"

definition year_length :: "nat \<Rightarrow> nat" where
  "year_length y = (if leap_year y then 366 else 365)"

definition month_length :: "nat \<Rightarrow> nat \<Rightarrow> nat" where
  "month_length y m =
     (if m = 2 then (if leap_year y then 29 else 28)
      else if m = 4 \<or> m = 6 \<or> m = 9 \<or> m = 11 then 30 else 31)"

definition day_number :: "nat \<Rightarrow> nat \<Rightarrow> nat \<Rightarrow> nat" where
  "day_number y m d = (\<Sum>k = 1..<y. year_length k) + (\<Sum>k = 1..<m. month_length y k) + d"

fun valid_stamp :: "stamp \<Rightarrow> bool" where
  "valid_stamp (Stamp y m d h mi s ms) =
     (1 \<le> y \<and> y \<le> 9999 \<and> 1 \<le> m \<and> m \<le> 12 \<and> 1 \<le> d \<and> d \<le> month_length y m
      \<and> h < 24 \<and> mi < 60 \<and> s < 60 \<and> ms < 1000)"

text \<open>
  The time of a timestamp with its sub-second fraction stripped, in microseconds on the
  time line of \<open>datetime\<close> (day 1 is 0001-01-01).
\<close>

fun instant :: "stamp \<Rightarrow> datetime" where
  "instant (Stamp y m d h mi s ms) =
     (((int (day_number y m d) * 24 + int h) * 60 + int mi) * 60 + int s) * 1000000"

text \<open>
  The text of a timestamp as \<^verbatim>\<open>%(asctime)s\<close> renders it by default
  (\<^verbatim>\<open>'%Y-%m-%d %H:%M:%S'\<close>, then \<^verbatim>\<open>',%03d'\<close> of the milliseconds), and the line the
  file handler writes for a message with the format \<^verbatim>\<open>'%(asctime)s | %(message)s'\<close>. The
  line ends as the platform ends lines: with \<^verbatim>\<open>\n\<close>, with \<^verbatim>\<open>\r\n\<close> or with \<^verbatim>\<open>\r\<close>.
\<close>

datatype line_end = LF | CRLF | CR

fun line_end_text :: "line_end \<Rightarrow> string" where
  "line_end_text LF = [CHR 0x0A]"
| "line_end_text CRLF = [CHR 0x0D, CHR 0x0A]"
| "line_end_text CR = [CHR 0x0D]"

definition digit :: "nat \<Rightarrow> char" where
  "digit n = char_of (48 + n)"

definition pad2 :: "nat \<Rightarrow> string" where
  "pad2 n = [digit (n div 10), digit (n mod 10)]"

definition pad3 :: "nat \<Rightarrow> string" where
  "pad3 n = [digit (n div 100), digit (n div 10 mod 10), digit (n mod 10)]"

definition pad4 :: "nat \<Rightarrow> string" where
  "pad4 n = [digit (n div 1000), digit (n div 100 mod 10), digit (n div 10 mod 10), digit (n mod 10)]"

fun date_text :: "stamp \<Rightarrow> string" where
  "date_text (Stamp y m d h mi s ms) =
     pad4 y @ ''-'' @ pad2 m @ ''-'' @ pad2 d @ '' '' @ pad2 h @ '':'' @ pad2 mi @ '':'' @ pad2 s"

fun asctime_text :: "stamp \<Rightarrow> string" where
  "asctime_text (Stamp y m d h mi s ms) = date_text (Stamp y m d h mi s ms) @ '','' @ pad3 ms"

definition logger_line :: "line_end \<Rightarrow> stamp \<times> string \<Rightarrow> string" where
  "logger_line eol ev = asctime_text (fst ev) @ '' | '' @ snd ev @ line_end_text eol"

text \<open>
  A message of one line that does not hold the delimiter, and a message that contains
  the marker text.
\<close>

definition plain_message :: "string \<Rightarrow> bool" where
  "plain_message msg = (CHR ''|'' \<notin> set msg \<and> CHR 0x0A \<notin> set msg \<and> CHR 0x0D \<notin> set msg)"

definition has_marker :: "string \<Rightarrow> bool" where
  "has_marker msg = (\<exists>before after. msg = before @ log_msg @ after)"

text \<open>
  A reboot event of the last 24 hours, for a clock reading \<open>today\<close>: a logged line whose
  message contains the marker and whose timestamp is strictly later than \<open>today\<close> minus
  24 hours.
\<close>

definition recent_reboot_event :: "datetime \<Rightarrow> stamp \<times> string \<Rightarrow> bool" where
  "recent_reboot_event today ev = (has_marker (snd ev) \<and> instant (fst ev) > today - 24 * 3600 * 1000000)"

section \<open>Example runs\<close>

text \<open>
  The specification's end-to-end configuration: \<open>attempts = 4\<close>, \<open>timeout = 2\<close>,
  \<open>retries = 2\<close>, \<open>retry_wait = 0\<close>, the other settings as \<^verbatim>\<open>main\<close> writes them.
\<close>

definition scenario_cfg :: config where
  "scenario_cfg = (config_items ''w.log'')\<lparr>retry_wait := 0\<rparr>"

text \<open>A smaller configuration: one round of two probes.\<close>

definition small_cfg :: config where
  "small_cfg = scenario_cfg\<lparr>attempts := 1, retries := 1\<rparr>"

text \<open>The clock of the example runs: 2021-08-12 12:00:00.\<close>

definition scenario_now :: datetime where
  "scenario_now = ymd2ord 2021 8 12 * day_us + 12 * hour_us"

text \<open>
  Python's \<^verbatim>\<open>ascii\<close> codec: every byte below 128 is the character with that code, and
  any other byte raises UnicodeDecodeError. (On ASCII bytes the \<^verbatim>\<open>utf-8\<close> codec gives
  the same text, and it rejects the byte \<open>0xFF\<close> as well.)
\<close>

definition ascii_decode :: "string \<Rightarrow> string option" where
  "ascii_decode raw = (if list_all (\<lambda>b. (of_char b :: nat) < 128) raw then Some raw else None)"

text \<open>
  A POSIX machine with \<^verbatim>\<open>ping\<close> installed and an ASCII locale, where every ping
  command exits with \<open>status\<close>, the reboot command succeeds and the push request
  raises.
\<close>

definition scenario_env :: "int \<Rightarrow> env" where
  "scenario_env status =
     \<lparr>os_nt = False, ping_on_path = True, ping_status = (\<lambda>k. status), reboot_status = 0,
      now = scenario_now, asctime = (\<lambda>k. ''2021-08-12 12:00:00,000''),
      hostname = ''box'', https = Raised, logger_path = ''w.log'', decode = ascii_decode\<rparr>"

text \<open>The same machine when the first eight ping commands fail and the later ones succeed.\<close>

definition flaky_env :: env where
  "flaky_env = (scenario_env 0)\<lparr>ping_status := (\<lambda>k. if k < 8 then 1 else 0)\<rparr>"

definition scenario_state :: "string \<Rightarrow> state" where
  "scenario_state content = \<lparr>files = [''w.log'' \<mapsto> content], npings = 0, trace = []\<rparr>"

text \<open>Log lines written one hour, 23 hours and 25 hours before \<open>scenario_now\<close>.\<close>

definition line_1h :: string where
  "line_1h = ''2021-08-12 11:00:00,000 | (ping-watchdog) ping failed. requesting reboot'' @ [CHR 0x0A]"

definition line_23h :: string where
  "line_23h = ''2021-08-11 13:00:00,000 | (ping-watchdog) ping failed. requesting reboot'' @ [CHR 0x0A]"

definition line_25h :: string where
  "line_25h = ''2021-08-11 11:00:00,000 | (ping-watchdog) ping failed. requesting reboot'' @ [CHR 0x0A]"

text \<open>
  Lines the scan does not count: no delimiter, an unparsable timestamp, another
  message, two delimiters, and a timestamp without a sub-second fraction (the text
  before the delimiter then ends with a blank, which \<^verbatim>\<open>strptime\<close> does not accept).
\<close>

definition line_no_delimiter :: string where
  "line_no_delimiter = ''2021-08-12 11:10:00,000 (ping-watchdog) ping failed. requesting reboot'' @ [CHR 0x0A]"

definition line_bad_date :: string where
  "line_bad_date = ''2021-02-30 11:20:00,000 | (ping-watchdog) ping failed. requesting reboot'' @ [CHR 0x0A]"

definition line_other_message :: string where
  "line_other_message = ''2021-08-12 11:30:00,000 | no reboot required'' @ [CHR 0x0A]"

definition line_two_delimiters :: string where
  "line_two_delimiters = ''2021-08-12 11:40:00,000 | (ping-watchdog) ping failed. requesting reboot | again'' @ [CHR 0x0A]"

definition line_no_fraction :: string where
  "line_no_fraction = ''2021-08-12 11:50:00 | (ping-watchdog) ping failed. requesting reboot'' @ [CHR 0x0A]"

text \<open>A log file holding the first seven lines.\<close>

definition scenario_log :: string where
  "scenario_log = line_1h @ line_23h @ line_25h @ line_no_delimiter @ line_bad_date
                  @ line_other_message @ line_two_delimiters"

text \<open>The small configuration with a limit of two reboots per day.\<close>

definition throttled_cfg :: config where
  "throttled_cfg = small_cfg\<lparr>max_reboots_per_day := 2\<rparr>"

text \<open>A log file holding only the three marker lines.\<close>

definition three_line_log :: string where
  "three_line_log = line_1h @ line_23h @ line_25h"

text \<open>The small configuration with push credentials of 30 characters each.\<close>

definition push_cfg :: config where
  "push_cfg = small_cfg\<lparr>pushover_user_key := replicate 30 CHR ''u'',
                         pushover_api_token := replicate 30 CHR ''a''\<rparr>"

text \<open>
  The three marker lines in the specification's format \<^verbatim>\<open>"<timestamp> | <message>"\<close>
  without a sub-second fraction, and a log file holding them.
\<close>

definition plain_1h :: string where
  "plain_1h = ''2021-08-12 11:00:00 | (ping-watchdog) ping failed. requesting reboot'' @ [CHR 0x0A]"

definition plain_23h :: string where
  "plain_23h = ''2021-08-11 13:00:00 | (ping-watchdog) ping failed. requesting reboot'' @ [CHR 0x0A]"

definition plain_25h :: string where
  "plain_25h = ''2021-08-11 11:00:00 | (ping-watchdog) ping failed. requesting reboot'' @ [CHR 0x0A]"

definition plain_log :: string where
  "plain_log = plain_1h @ plain_23h @ plain_25h"

text \<open>
  A line without the delimiter that holds the byte \<open>0xFF\<close>, and a log file of one marker
  line followed by it.
\<close>

definition line_bad_byte :: string where
  "line_bad_byte = ''no delimiter here '' @ [CHR 0xFF, CHR 0x0A]"

definition bad_byte_log :: string where
  "bad_byte_log = line_1h @ line_bad_byte"

section \<open>Properties of probing\<close>

lemma rounds_append [simp]: "rounds (xs @ ys) = rounds xs @ rounds ys"
  by (simp add: rounds_def)
lemma probes_append [simp]: "probes (xs @ ys) = probes xs + probes ys"
  by (simp add: probes_def)
lemma rounds_Nil [simp]: "rounds [] = []" by (simp add: rounds_def)
lemma probes_Nil [simp]: "probes [] = 0" by (simp add: probes_def)
lemma rounds_Cons [simp]: "rounds (x # xs) = round_of x @ rounds xs" by (simp add: rounds_def)
lemma probes_Cons [simp]: "probes (x # xs) = (if is_ping x then Suc (probes xs) else probes xs)" by (simp add: probes_def)

lemma events_since_append [simp]: "trace s' = trace s @ es \<Longrightarrow> events_since s s' = es"
  by (simp add: events_since_def)

lemma ping_loop_spec:
  "ping_loop cfg e n (f, s) = (f', s') \<Longrightarrow>
    \<exists>es. trace s' = trace s @ es \<and> rounds es = [] \<and> probes es = n
       \<and> npings s' = npings s + n \<and> files s' = files s
       \<and> f' = f + failures_from e (npings s) n
       \<and> (\<forall>x\<in>set es. is_probing x)"
proof (induction n arbitrary: f s)
  case 0
  then show ?case by (simp add: failures_from_def)
next
  case (Suc n)
  obtain f1 s1 where p1: "ping_once cfg e (f, s) = (f1, s1)" by (cases "ping_once cfg e (f, s)")
  from p1 have t1: "trace s1 = trace s @ [Debug (Pinging (host cfg)), PingCmd (if os_nt e then ''ping -n 1 -w'' else ''ping -c 1 -W'') (timeout cfg) (host cfg) (if os_nt e then ''NUL'' else ''/dev/null'')]"
    and n1: "npings s1 = Suc (npings s)" and fl1: "files s1 = files s"
    and f1: "f1 = (if ping_status e (npings s) \<noteq> 0 then f + 1 else f)"
    by (auto simp: ping_once_def Let_def log_debug_def emit_def)
  from Suc.prems p1 have "ping_loop cfg e n (f1, s1) = (f', s')" by simp
  from Suc.IH[OF this] obtain es where es: "trace s' = trace s1 @ es" "rounds es = []" "probes es = n"
       "npings s' = npings s1 + n" "files s' = files s1"
       "f' = f1 + failures_from e (npings s1) n"
       "(\<forall>x\<in>set es. is_probing x)" by blast
  have ff: "failures_from e (npings s) (Suc n) = (if ping_status e (npings s) \<noteq> 0 then 1 else 0) + failures_from e (Suc (npings s)) n"
  proof -
    have "[npings s ..< npings s + Suc n] = npings s # [Suc (npings s) ..< Suc (npings s) + n]"
      by (simp add: upt_conv_Cons del: upt_Suc)
    then show ?thesis unfolding failures_from_def by simp
  qed
  show ?case
    apply (rule exI[of _ "[Debug (Pinging (host cfg)), PingCmd (if os_nt e then ''ping -n 1 -w'' else ''ping -c 1 -W'') (timeout cfg) (host cfg) (if os_nt e then ''NUL'' else ''/dev/null'')] @ es"])
    using es t1 n1 fl1 f1 ff by auto
qed


lemma ping_attempts_spec:
  assumes "ping_on_path e" and "ping_attempts cfg e s = (r, s')"
  shows "\<exists>es. trace s' = trace s @ es \<and> rounds es = [] \<and> probes es = nat (2 * attempts cfg)
       \<and> npings s' = npings s + nat (2 * attempts cfg) \<and> files s' = files s
       \<and> r = Inr (failures_from e (npings s) (nat (2 * attempts cfg)))
       \<and> (\<forall>x\<in>set es. is_probing x)"
proof -
  obtain f where pl: "ping_loop cfg e (nat (2 * attempts cfg)) (0, s) = (f, s')" and r: "r = Inr f"
    using assms by (auto simp: ping_attempts_def split: prod.splits)
  from ping_loop_spec[OF pl] r show ?thesis by auto
qed

lemma retry_sleep_spec:
  assumes "retry_sleep cfg s = (r, s')"
  shows "\<exists>es. trace s' = trace s @ es \<and> rounds es = [] \<and> probes es = 0
       \<and> npings s' = npings s \<and> files s' = files s \<and> (\<forall>x\<in>set es. is_probing x)"
  using assms by (auto simp: retry_sleep_def Let_def log_debug_def emit_def split: if_splits)

lemma ping_host_loop_spec:
  assumes "ping_on_path e" and "ping_host_loop cfg e count s = (r, s')"
  shows "\<exists>es. trace s' = trace s @ es \<and> files s' = files s
       \<and> npings s' = npings s + length (rounds es) * nat (2 * attempts cfg)
       \<and> probes es = length (rounds es) * nat (2 * attempts cfg)
       \<and> rounds es = map (\<lambda>k. failures_from e (npings s + k * nat (2 * attempts cfg)) (nat (2 * attempts cfg)))
                        [0..<length (rounds es)]
       \<and> (\<forall>f\<in>set (butlast (rounds es)). f > attempts cfg)
       \<and> (r = Inr True \<longleftrightarrow> rounds es \<noteq> [] \<and> last (rounds es) \<le> attempts cfg)
       \<and> (r = Inr False \<longrightarrow> int (length (rounds es)) = max 0 (retries cfg - count))
       \<and> (r = Inr True \<longrightarrow> es \<noteq> [] \<and> last es = Debug (FailedAttempts (last (rounds es))))
       \<and> (\<forall>x\<in>set es. is_probing x)"
  using assms
proof (induction cfg e count s arbitrary: r s' rule: ping_host_loop.induct)
  case (1 cfg e count s)
  let ?a = "nat (2 * attempts cfg)"
  show ?case
  proof (cases "count < retries cfg")
    case False
    with "1.prems" have "r = Inr False" "s' = s" by (auto simp: ping_host_loop.simps)
    with False show ?thesis by (intro exI[of _ "[]"]) auto
  next
    case True
    obtain r1 s1 where sl: "(if count > 0 then retry_sleep cfg s else (Inr (), s)) = (r1, s1)"
      by (cases "(if count > 0 then retry_sleep cfg s else (Inr (), s))")
    then obtain es1 where es1: "trace s1 = trace s @ es1" "rounds es1 = []" "probes es1 = 0"
      "npings s1 = npings s" "files s1 = files s" "\<forall>x\<in>set es1. is_probing x"
      using retry_sleep_spec[of cfg s r1 s1] by (cases "count > 0") auto
    show ?thesis
    proof (cases r1)
      case (Inl err)
      with "1.prems" True sl have "r = Inl err" "s' = s1" by (auto simp: ping_host_loop.simps)
      with es1 show ?thesis by (intro exI[of _ es1]) auto
    next
      case (Inr u)
      obtain r2 s2 where pa: "ping_attempts cfg e s1 = (r2, s2)" by (cases "ping_attempts cfg e s1")
      from ping_attempts_spec[OF "1.prems"(1) pa] obtain es2 where es2:
        "trace s2 = trace s1 @ es2" "rounds es2 = []" "probes es2 = ?a"
        "npings s2 = npings s1 + ?a" "files s2 = files s1"
        "r2 = Inr (failures_from e (npings s1) ?a)" "\<forall>x\<in>set es2. is_probing x" by blast
      let ?f = "failures_from e (npings s) ?a"
      let ?s3 = "log_debug (FailedAttempts ?f) s2"
      have s3: "trace ?s3 = trace s @ es1 @ es2 @ [Debug (FailedAttempts ?f)]"
        "npings ?s3 = npings s + ?a" "files ?s3 = files s"
        using es1 es2 by (auto simp: log_debug_def emit_def)
      show ?thesis
      proof (cases "?f \<le> attempts cfg")
        case ok: True
        with "1.prems" True sl Inr pa es2 es1 have "r = Inr True" "s' = ?s3"
          by (auto simp: ping_host_loop.simps[of cfg e count s] Let_def)
        with s3 es1 es2 ok show ?thesis
          by (intro exI[of _ "es1 @ es2 @ [Debug (FailedAttempts ?f)]"]) auto
      next
        case no: False
        with "1.prems" True sl Inr pa es2 es1 have rec: "ping_host_loop cfg e (count + 1) ?s3 = (r, s')"
          by (auto simp: ping_host_loop.simps[of cfg e count s] Let_def)
        have "\<exists>es. trace s' = trace ?s3 @ es \<and> files s' = files ?s3
           \<and> npings s' = npings ?s3 + length (rounds es) * ?a
           \<and> probes es = length (rounds es) * ?a
           \<and> rounds es = map (\<lambda>k. failures_from e (npings ?s3 + k * ?a) ?a) [0..<length (rounds es)]
           \<and> (\<forall>f\<in>set (butlast (rounds es)). f > attempts cfg)
           \<and> (r = Inr True \<longleftrightarrow> rounds es \<noteq> [] \<and> last (rounds es) \<le> attempts cfg)
           \<and> (r = Inr False \<longrightarrow> int (length (rounds es)) = max 0 (retries cfg - (count + 1)))
           \<and> (r = Inr True \<longrightarrow> es \<noteq> [] \<and> last es = Debug (FailedAttempts (last (rounds es))))
           \<and> (\<forall>x\<in>set es. is_probing x)"
        proof -
          have r2: "r2 = Inr ?f" using es2 es1 by simp
          show ?thesis
            by (rule "1.IH"[OF True sl[symmetric] Inr pa[symmetric] r2 refl no "1.prems"(1) rec])
        qed
        then obtain es where es: "trace s' = trace ?s3 @ es" "files s' = files ?s3"
           "npings s' = npings ?s3 + length (rounds es) * ?a"
           "probes es = length (rounds es) * ?a"
           "rounds es = map (\<lambda>k. failures_from e (npings ?s3 + k * ?a) ?a) [0..<length (rounds es)]"
           "\<forall>f\<in>set (butlast (rounds es)). f > attempts cfg"
           "r = Inr True \<longleftrightarrow> rounds es \<noteq> [] \<and> last (rounds es) \<le> attempts cfg"
           "r = Inr False \<longrightarrow> int (length (rounds es)) = max 0 (retries cfg - (count + 1))"
           "\<forall>x\<in>set es. is_probing x"
           "r = Inr True \<longrightarrow> es \<noteq> [] \<and> last es = Debug (FailedAttempts (last (rounds es)))" by blast
        let ?es = "es1 @ es2 @ [Debug (FailedAttempts ?f)] @ es"
        have rs: "rounds ?es = ?f # rounds es" using es1 es2 by simp
        have m: "map (\<lambda>k. failures_from e (npings s + k * ?a) ?a) [0..<length (rounds ?es)]
              = ?f # map (\<lambda>k. failures_from e (npings ?s3 + k * ?a) ?a) [0..<length (rounds es)]"
          unfolding rs by (simp add: s3 map_upt_Suc add.assoc del: upt_Suc)
        have "trace s' = trace s @ ?es" using es s3 by simp
        moreover have "files s' = files s" using es s3 by simp
        moreover have "npings s' = npings s + length (rounds ?es) * ?a" using es s3 unfolding rs by simp
        moreover have "probes ?es = length (rounds ?es) * ?a" using es es1 es2 unfolding rs by simp
        moreover have "rounds ?es = map (\<lambda>k. failures_from e (npings s + k * ?a) ?a) [0..<length (rounds ?es)]"
          unfolding m using es(5) rs by simp
        moreover have "\<forall>f\<in>set (butlast (rounds ?es)). f > attempts cfg"
          unfolding rs using es(6) no by auto
        moreover have "r = Inr True \<longleftrightarrow> rounds ?es \<noteq> [] \<and> last (rounds ?es) \<le> attempts cfg"
          unfolding rs using es(7) no by auto
        moreover have "r = Inr False \<longrightarrow> int (length (rounds ?es)) = max 0 (retries cfg - count)"
          unfolding rs using es(8) True by auto
        moreover have "\<forall>x\<in>set ?es. is_probing x" using es(9) es1 es2 by auto
        moreover have "r = Inr True \<longrightarrow> ?es \<noteq> [] \<and> last ?es = Debug (FailedAttempts (last (rounds ?es)))"
          unfolding rs using es(10) es(7) by auto
        ultimately show ?thesis by blast
      qed
    qed
  qed
qed

section \<open>Properties of the log scan\<close>

lemma split_on_nonempty [simp]: "split_on sep s \<noteq> []"
  by (induction s) (auto split: list.splits)

lemma hd_split_on: "hd (split_on sep s) = takeWhile (\<lambda>c. c \<noteq> sep) s"
proof (induction s)
  case Nil then show ?case by simp
next
  case (Cons a s)
  then show ?case by (cases "split_on sep s") auto
qed

lemma length_split_on: "length (split_on sep s) = Suc (length (filter (\<lambda>c. c = sep) s))"
proof (induction s)
  case Nil then show ?case by simp
next
  case (Cons a s)
  then show ?case by (cases "split_on sep s") auto
qed

lemma split_on_no_sep: "sep \<notin> set s \<Longrightarrow> split_on sep s = [s]"
  by (induction s) auto

lemma split_on_append: "sep \<notin> set a \<Longrightarrow> split_on sep (a @ sep # b) = a # split_on sep b"
  by (induction a) auto

lemma split_on_two:
  "split_on sep s = [a, b] \<longleftrightarrow> (s = a @ sep # b \<and> sep \<notin> set a \<and> sep \<notin> set b)"
proof
  assume "split_on sep s = [a, b]"
  then show "s = a @ sep # b \<and> sep \<notin> set a \<and> sep \<notin> set b"
  proof (induction s arbitrary: a)
    case Nil then show ?case by simp
  next
    case (Cons c s)
    show ?case
    proof (cases "c = sep")
      case True
      with Cons.prems have a: "a = []" and sb: "split_on sep s = [b]" by auto
      have "sep \<notin> set s"
      proof
        assume "sep \<in> set s"
        then have "filter (\<lambda>c. c = sep) s \<noteq> []" by (auto simp: filter_empty_conv)
        then have "length (split_on sep s) > 1" by (simp add: length_split_on)
        with sb show False by simp
      qed
      with sb have "b = s" by (simp add: split_on_no_sep)
      with a True \<open>sep \<notin> set s\<close> show ?thesis by simp
    next
      case False
      with Cons.prems obtain a' where "a = c # a'" "split_on sep s = [a', b]"
        by (auto split: list.splits)
      with Cons.IH[of a'] False show ?thesis by auto
    qed
  qed
next
  assume "s = a @ sep # b \<and> sep \<notin> set a \<and> sep \<notin> set b"
  then show "split_on sep s = [a, b]" by (simp add: split_on_append split_on_no_sep)
qed

lemma discard_millisecs_takeWhile:
  "discard_millisecs dt = takeWhile (\<lambda>c. c \<noteq> CHR '','' \<and> c \<noteq> CHR ''.'') dt"
  unfolding discard_millisecs_def hd_split_on
  by (induction dt) auto

lemma find_from_found:
  "0 \<le> i \<Longrightarrow> find_from sub s i \<noteq> - 1 \<longleftrightarrow> (\<exists>before after. s = before @ sub @ after)"
proof (induction sub s i rule: find_from.induct)
  case (1 sub i)
  then show ?case by auto
next
  case (2 sub c cs i)
  show ?case
  proof (cases "take (length sub) (c # cs) = sub")
    case True
    then have "c # cs = [] @ sub @ drop (length sub) (c # cs)"
      by (metis append_Nil append_take_drop_id)
    then have "\<exists>before after. c # cs = before @ sub @ after" by blast
    with True 2 show ?thesis by simp
  next
    case False
    have "(\<exists>before after. c # cs = before @ sub @ after) \<longleftrightarrow> (\<exists>before after. cs = before @ sub @ after)"
    proof
      assume "\<exists>before after. c # cs = before @ sub @ after"
      then obtain before after where e: "c # cs = before @ sub @ after" by blast
      show "\<exists>before after. cs = before @ sub @ after"
      proof (cases before)
        case Nil
        with e have "take (length sub) (c # cs) = sub" by simp
        with False show ?thesis by simp
      next
        case (Cons b bs)
        with e have "cs = bs @ sub @ after" by simp
        then show ?thesis by blast
      qed
    next
      assume "\<exists>before after. cs = before @ sub @ after"
      then obtain before after where "cs = before @ sub @ after" by blast
      then have "c # cs = (c # before) @ sub @ after" by simp
      then show "\<exists>before after. c # cs = before @ sub @ after" by blast
    qed
    with False 2 show ?thesis by simp
  qed
qed

lemma str_find_found: "str_find s sub \<noteq> - 1 \<longleftrightarrow> (\<exists>before after. s = before @ sub @ after)"
  unfolding str_find_def by (rule find_from_found) simp


text \<open>What one line adds to \<open>dt_lst\<close>.\<close>

lemma scan_lines_append_acc:
  "scan_lines lines dt_lst = dt_lst @ scan_lines lines []"
proof (induction lines arbitrary: dt_lst)
  case Nil then show ?case by simp
next
  case (Cons l ls)
  show ?case
  proof (cases "scan_line l")
    case (Inl err)
    then show ?thesis using Cons.IH[of dt_lst] by simp
  next
    case (Inr r)
    show ?thesis
    proof (cases r)
      case None
      with Inr show ?thesis using Cons.IH[of dt_lst] by simp
    next
      case (Some t)
      with Inr show ?thesis using Cons.IH[of "dt_lst @ [t]"] Cons.IH[of "[t]"] by simp
    qed
  qed
qed

lemma scan_lines_app:
  "scan_lines (xs @ ys) dt_lst = scan_lines ys (scan_lines xs dt_lst)"
  by (induction xs arbitrary: dt_lst) (auto split: sum.splits option.splits)

lemma scan_lines_skip:
  assumes "\<forall>t. scan_line line \<noteq> Inr (Some t)"
  shows "scan_lines (pre @ line # post) dt_lst = scan_lines (pre @ post) dt_lst"
  using assms by (simp add: scan_lines_app split: sum.splits option.splits)

lemma count_recent_acc:
  "count_recent y ds c = c + int (length (filter (\<lambda>t. t > y) ds))"
  by (induction ds arbitrary: c) auto

lemma count_scan_lines:
  "count_recent y (scan_lines lines []) 0
     = int (length (filter (\<lambda>l. \<exists>t. scan_line l = Inr (Some t) \<and> t > y) lines))"
proof (induction lines)
  case Nil then show ?case by simp
next
  case (Cons l ls)
  have step: "count_recent y (scan_lines (l # ls) []) 0
      = (case scan_line l of Inr (Some t) \<Rightarrow> (if t > y then 1 else 0) | _ \<Rightarrow> 0)
        + count_recent y (scan_lines ls []) 0"
    using scan_lines_append_acc[of ls "[the (projr (scan_line l))]"]
    by (auto simp: count_recent_acc split: sum.splits option.splits)
  show ?case unfolding step Cons.IH
    by (auto split: sum.splits option.splits)
qed

lemma scan_line_counted:
  "(\<exists>t. scan_line l = Inr (Some t) \<and> t > today - 24 * hour_us) \<longleftrightarrow> counted_line today l"
proof
  assume "\<exists>t. scan_line l = Inr (Some t) \<and> t > today - 24 * hour_us"
  then obtain t where t: "scan_line l = Inr (Some t)" "t > today - 24 * hour_us" by blast
  from t(1) obtain dt rest where sp: "split_on CHR ''|'' l = [dt, rest]"
    by (auto simp: scan_line_def split: list.splits)
  with t(1) have f: "str_find rest log_msg \<noteq> - 1" and p: "strptime (discard_millisecs dt) = Inr t"
    by (auto simp: scan_line_def split: if_splits sum.splits)
  from sp have "l = dt @ CHR ''|'' # rest" "CHR ''|'' \<notin> set dt" "CHR ''|'' \<notin> set rest"
    by (simp_all add: split_on_two)
  moreover from f have "\<exists>before after. rest = before @ log_msg @ after" by (simp add: str_find_found)
  ultimately show "counted_line today l"
    unfolding counted_line_def using p t(2) by (auto simp: discard_millisecs_takeWhile)
next
  assume "counted_line today l"
  then obtain ts msg t where h: "l = ts @ CHR ''|'' # msg" "CHR ''|'' \<notin> set ts" "CHR ''|'' \<notin> set msg"
     "\<exists>before after. msg = before @ log_msg @ after"
     "strptime (takeWhile (\<lambda>c. c \<noteq> CHR '','' \<and> c \<noteq> CHR ''.'') ts) = Inr t"
     "t > today - 24 * hour_us"
    unfolding counted_line_def by blast
  from h(1-3) have sp: "split_on CHR ''|'' l = [ts, msg]" by (simp add: split_on_two)
  from h(4) have f: "str_find msg log_msg \<noteq> - 1" by (simp add: str_find_found)
  from sp f h(5) have "scan_line l = Inr (Some t)"
    by (simp add: scan_line_def discard_millisecs_takeWhile)
  with h(6) show "\<exists>t. scan_line l = Inr (Some t) \<and> t > today - 24 * hour_us" by blast
qed

lemma datetime_sub_hours_Inr: "datetime_sub_hours dt h = Inr y \<Longrightarrow> y = dt - h * hour_us"
  by (auto simp: datetime_sub_hours_def Let_def split: if_splits)

lemma num_reboots_24h_Some:
  assumes "files s (log_file cfg) = Some raw" and "decode e raw = Some content"
    and "datetime_sub_hours (now e) 24 = Inr y"
  shows "num_reboots_24h cfg e s =
     (Inr (count_recent y (scan_lines (readlines (universal_newlines content)) []) 0),
      emit (ReadLog (log_file cfg)) s)"
  using assms by (simp add: num_reboots_24h_def Let_def)

lemma num_reboots_24h_skips:
  assumes "files s (log_file cfg) = Some raw" and "decode e raw = Some content"
    and "readlines (universal_newlines content) = pre @ line # post"
    and "datetime_sub_hours (now e) 24 = Inr yesterday"
    and "\<forall>t. scan_line line \<noteq> Inr (Some t)"
  shows "fst (num_reboots_24h cfg e s) = Inr (count_recent yesterday (scan_lines (pre @ post) []) 0)"
  using assms(3) scan_lines_skip[OF assms(5), of pre post "[]"]
  by (simp add: num_reboots_24h_Some[OF assms(1,2,4)])

lemma scan_line_two_delimiters:
  assumes "1 < length (filter (\<lambda>c. c = CHR ''|'') line)"
  shows "scan_line line = Inl ValueError"
proof -
  have "2 < length (split_on CHR ''|'' line)" using assms by (simp add: length_split_on)
  then show ?thesis by (auto simp: scan_line_def split: list.splits)
qed

lemma scan_line_no_delimiter:
  assumes "CHR ''|'' \<notin> set line"
  shows "scan_line line = Inl ValueError"
  using assms by (simp add: scan_line_def split_on_no_sep)

lemma scan_line_one_delimiter:
  assumes "line = dt @ CHR ''|'' # rest" and "length (filter (\<lambda>c. c = CHR ''|'') line) = 1"
  shows "split_on CHR ''|'' line = [dt, rest]"
proof -
  from assms have "filter (\<lambda>c. c = CHR ''|'') dt = []" "filter (\<lambda>c. c = CHR ''|'') rest = []" by auto
  then have "CHR ''|'' \<notin> set dt" "CHR ''|'' \<notin> set rest" by (auto simp: filter_empty_conv)
  with assms(1) show ?thesis by (simp add: split_on_two)
qed

lemma scan_line_skipped:
  assumes "line = dt @ CHR ''|'' # rest"
    and "strptime (discard_millisecs dt) = Inl ValueError \<or> str_find rest log_msg = - 1"
  shows "scan_line line = Inl ValueError \<or> scan_line line = Inr None"
proof (cases "length (filter (\<lambda>c. c = CHR ''|'') line) = 1")
  case True
  from scan_line_one_delimiter[OF assms(1) True] assms(2) show ?thesis
    by (auto simp: scan_line_def)
next
  case False
  with assms(1) have "1 < length (filter (\<lambda>c. c = CHR ''|'') line)" by auto
  then show ?thesis by (simp add: scan_line_two_delimiters)
qed


section \<open>The logger's lines\<close>

subsection \<open>The two calendars agree\<close>


lemma is_leap_int: "is_leap (int y) = leap_year y"
proof -
  have "int y mod 4 = 0 \<longleftrightarrow> 4 dvd y" "int y mod 100 = 0 \<longleftrightarrow> 100 dvd y" "int y mod 400 = 0 \<longleftrightarrow> 400 dvd y"
    by presburger+
  then show ?thesis by (simp add: is_leap_def leap_year_def)
qed

lemma month_cases:
  assumes "1 \<le> m" "m \<le> (12::nat)"
  shows "m = 1 \<or> m = 2 \<or> m = 3 \<or> m = 4 \<or> m = 5 \<or> m = 6 \<or> m = 7 \<or> m = 8 \<or> m = 9 \<or> m = 10 \<or> m = 11 \<or> m = 12"
  using assms by arith

lemma days_in_month_int:
  assumes "1 \<le> m" "m \<le> 12"
  shows "days_in_month (int y) (int m) = int (month_length y m)"
  using month_cases[OF assms]
  by (auto simp: days_in_month_def month_length_def DAYS_IN_MONTH_def is_leap_int)

lemma days_before_month_int:
  assumes "1 \<le> m" "m \<le> 12"
  shows "days_before_month (int y) (int m) = int (\<Sum>k = 1..<m. month_length y k)"
  using month_cases[OF assms]
  by (elim disjE) (simp_all add: days_before_month_def month_length_def DAYS_IN_MONTH_def is_leap_int
       eval_nat_numeral sum.atLeast_Suc_lessThan)

lemma div_Suc_dvd:
  "Suc n div k = n div k + (if k dvd Suc n then 1 else 0)"
  by (simp add: div_Suc mod_eq_0_iff_dvd)

lemma year_sum:
  "int (\<Sum>k = 1..<Suc n. year_length k) = int n * 365 + int (n div 4) - int (n div 100) + int (n div 400)"
proof (induction n)
  case 0
  then show ?case by simp
next
  case (Suc n)
  have "(4::nat) dvd 100" "(100::nat) dvd 400" by simp_all
  then have d: "100 dvd Suc n \<Longrightarrow> 4 dvd Suc n" "400 dvd Suc n \<Longrightarrow> 100 dvd Suc n"
    using dvd_trans by blast+
  have s: "int (\<Sum>k = 1..<Suc (Suc n). year_length k)
             = int (\<Sum>k = 1..<Suc n. year_length k) + int (year_length (Suc n))"
    by simp
  have y: "int (year_length (Suc n)) = 365 + (if 4 dvd Suc n then 1 else 0)
             - (if 100 dvd Suc n then 1 else 0) + (if 400 dvd Suc n then 1 else 0)"
    using d by (auto simp: year_length_def leap_year_def)
  show ?case
    unfolding s Suc.IH y div_Suc_dvd[of n 4] div_Suc_dvd[of n 100] div_Suc_dvd[of n 400]
    by simp
qed

lemma days_before_year_int:
  assumes "1 \<le> y"
  shows "days_before_year (int y) = int (\<Sum>k = 1..<y. year_length k)"
proof -
  obtain n where y: "y = Suc n" using assms by (cases y) auto
  have "int (Suc n) - 1 = int n" by simp
  then show ?thesis unfolding y year_sum
    by (simp add: days_before_year_def Let_def zdiv_int)
qed

lemma ymd2ord_int:
  assumes "1 \<le> y" "1 \<le> m" "m \<le> 12"
  shows "ymd2ord (int y) (int m) (int d) = int (day_number y m d)"
  by (simp add: ymd2ord_def day_number_def days_before_year_int[OF assms(1)] days_before_month_int[OF assms(2,3)])

lemma datetime_instant:
  assumes "valid_stamp (Stamp y m d h mi s ms)"
  shows "datetime (int y) (int m) (int d) (int h) (int mi) (int s) 0 = Inr (instant (Stamp y m d h mi s ms))"
proof -
  from assms have v: "1 \<le> y" "y \<le> 9999" "1 \<le> m" "m \<le> 12" "1 \<le> d" "d \<le> month_length y m"
    "h < 24" "mi < 60" "s < 60" by simp_all
  show ?thesis
    using v
    by (simp add: datetime_def days_in_month_int[OF v(3,4)] ymd2ord_int[OF v(1,3,4)]
          day_us_def hour_us_def second_us_def algebra_simps)
qed

subsection \<open>\<^verbatim>\<open>strptime\<close> reads back what the logger formats\<close>


lemma of_char_digit: "n < 10 \<Longrightarrow> (of_char (digit n) :: nat) = 48 + n"
  by (simp add: digit_def)

lemma digit_eq_iff: "n < 10 \<Longrightarrow> digit n = c \<longleftrightarrow> (of_char c :: nat) = 48 + n"
proof -
  assume n: "n < 10"
  have "digit n = c \<longleftrightarrow> (of_char (digit n) :: nat) = of_char c" by simp
  then show ?thesis using of_char_digit[OF n] by auto
qed

lemma in_class_digit:
  "n < 10 \<Longrightarrow> in_class lo hi (digit n) \<longleftrightarrow> (of_char lo :: nat) \<le> 48 + n \<and> 48 + n \<le> (of_char hi :: nat)"
  by (simp add: in_class_def of_char_digit)

lemma is_digit_digit: "n < 10 \<Longrightarrow> is_digit (digit n)"
  by (simp add: is_digit_def in_class_digit)

lemma not_space_digit: "n < 10 \<Longrightarrow> \<not> is_space (digit n)"
  by (simp add: is_space_def in_class_digit digit_eq_iff)

lemma eq_digit_iff: "n < 10 \<Longrightarrow> c = digit n \<longleftrightarrow> (of_char c :: nat) = 48 + n"
  using digit_eq_iff[of n c] by auto

lemmas digit_facts = in_class_digit is_digit_digit not_space_digit digit_eq_iff eq_digit_iff

lemma re_Y_pad4:
  assumes "y \<le> 9999"
  shows "re_Y (pad4 y @ rest) = [(pad4 y, rest)]"
proof -
  have "y div 1000 < 10" "y div 100 mod 10 < 10" "y div 10 mod 10 < 10" "y mod 10 < 10"
    using assms by simp_all
  then show ?thesis by (simp add: re_Y_def pad4_def is_digit_digit)
qed

lemma re_m_pad2:
  assumes "1 \<le> m" "m \<le> 12"
  shows "\<exists>more. re_m (pad2 m @ rest) = (pad2 m, rest) # more"
proof -
  have a: "m div 10 < 10" "m mod 10 < 10" using assms by simp_all
  have "m div 10 = 1 \<and> m mod 10 \<le> 2 \<or> m div 10 = 0 \<and> 1 \<le> m mod 10" using assms by arith
  then show ?thesis using a by (auto simp: re_m_def pad2_def digit_facts)
qed

lemma re_d_pad2:
  assumes "1 \<le> d" "d \<le> 31"
  shows "\<exists>more. re_d (pad2 d @ rest) = (pad2 d, rest) # more"
proof -
  have a: "d div 10 < 10" "d mod 10 < 10" using assms by simp_all
  have "d div 10 = 3 \<and> d mod 10 \<le> 1 \<or> (d div 10 = 1 \<or> d div 10 = 2) \<or> d div 10 = 0 \<and> 1 \<le> d mod 10"
    using assms by arith
  then show ?thesis using a by (auto simp: re_d_def pad2_def digit_facts)
qed

lemma re_H_pad2:
  assumes "h < 24"
  shows "\<exists>more. re_H (pad2 h @ rest) = (pad2 h, rest) # more"
proof -
  have a: "h div 10 < 10" "h mod 10 < 10" using assms by simp_all
  have "h div 10 = 2 \<and> h mod 10 \<le> 3 \<or> h div 10 \<le> 1" using assms by arith
  then show ?thesis using a by (auto simp: re_H_def pad2_def digit_facts)
qed

lemma re_M_pad2:
  assumes "mi < 60"
  shows "\<exists>more. re_M (pad2 mi @ rest) = (pad2 mi, rest) # more"
proof -
  have a: "mi div 10 < 10" "mi mod 10 < 10" "mi div 10 \<le> 5" using assms by simp_all
  then show ?thesis by (auto simp: re_M_def pad2_def digit_facts)
qed

lemma re_S_pad2:
  assumes "s < 60"
  shows "\<exists>more. re_S (pad2 s @ rest) = (pad2 s, rest) # more"
proof -
  have a: "s div 10 < 10" "s mod 10 < 10" "s div 10 \<le> 5" using assms by simp_all
  then show ?thesis by (auto simp: re_S_def pad2_def digit_facts)
qed

lemma re_spaces_pad2:
  assumes "h < 100"
  shows "re_spaces ('' '' @ pad2 h @ rest) = [pad2 h @ rest]"
proof -
  have sp: "is_space CHR '' ''" by (simp add: is_space_def in_class_def)
  have "h div 10 < 10" using assms by simp
  then show ?thesis by (simp add: pad2_def not_space_digit sp)
qed

lemma group_int_pad2: "n < 100 \<Longrightarrow> group_int (pad2 n) = int n"
proof -
  assume n: "n < 100"
  then have a: "n div 10 < 10" "n mod 10 < 10" by simp_all
  have e: "n = 10 * (n div 10) + n mod 10" by simp
  have "int n = 10 * int (n div 10) + int (n mod 10)"
    using arg_cong[OF e, of int] by (simp only: of_nat_add of_nat_mult of_nat_numeral)
  then show ?thesis using a
    by (simp add: group_int_def pad2_def not_space_digit of_char_digit)
qed

lemma group_int_pad4: "n \<le> 9999 \<Longrightarrow> group_int (pad4 n) = int n"
proof -
  assume n: "n \<le> 9999"
  then have a: "n div 1000 < 10" "n div 100 mod 10 < 10" "n div 10 mod 10 < 10" "n mod 10 < 10" by simp_all
  have h: "n div 100 = n div 10 div 10" "n div 1000 = n div 10 div 10 div 10"
    by (simp_all add: div_mult2_eq[symmetric])
  have e1: "n = 10 * (n div 10) + n mod 10" by simp
  have e2: "n div 10 = 10 * (n div 10 div 10) + n div 10 mod 10" by simp
  have e3: "n div 10 div 10 = 10 * (n div 10 div 10 div 10) + n div 10 div 10 mod 10" by simp
  have e: "n = 1000 * (n div 10 div 10 div 10) + 100 * (n div 10 div 10 mod 10)
               + 10 * (n div 10 mod 10) + n mod 10"
    using e1 e2 e3 by linarith
  have "int n = 1000 * int (n div 1000) + 100 * int (n div 100 mod 10)
                   + 10 * int (n div 10 mod 10) + int (n mod 10)"
    unfolding h using arg_cong[OF e, of int] by (simp only: of_nat_add of_nat_mult of_nat_numeral)
  then show ?thesis using a
    by (simp add: group_int_def pad4_def not_space_digit of_char_digit)
qed


lemma month_length_le: "month_length y m \<le> 31"
  by (simp add: month_length_def)

lemma strptime_date_text:
  assumes "valid_stamp st"
  shows "strptime (date_text st) = Inr (instant st)"
proof -
  obtain y m d h mi s ms where st: "st = Stamp y m d h mi s ms" by (cases st)
  from assms st have v: "1 \<le> y" "y \<le> 9999" "1 \<le> m" "m \<le> 12" "1 \<le> d" "d \<le> month_length y m"
    "h < 24" "mi < 60" "s < 60" by simp_all
  have d31: "d \<le> 31" using v(6) month_length_le[of y m] by simp
  let ?t5 = "pad2 s"
  let ?t4 = "pad2 mi @ '':'' @ ?t5"
  let ?t3 = "pad2 h @ '':'' @ ?t4"
  let ?t2 = "pad2 d @ '' '' @ ?t3"
  let ?t1 = "pad2 m @ ''-'' @ ?t2"
  have tx: "date_text st = pad4 y @ ''-'' @ ?t1" by (simp add: st)
  obtain m1 where m1: "re_m ?t1 = (pad2 m, ''-'' @ ?t2) # m1" using re_m_pad2[OF v(3,4)] by blast
  obtain m2 where m2: "re_d ?t2 = (pad2 d, '' '' @ ?t3) # m2" using re_d_pad2[OF v(5) d31] by blast
  have sp: "re_spaces ('' '' @ ?t3) = [?t3]" using re_spaces_pad2[of h] v(7) by simp
  obtain m3 where m3: "re_H ?t3 = (pad2 h, '':'' @ ?t4) # m3" using re_H_pad2[OF v(7)] by blast
  obtain m4 where m4: "re_M ?t4 = (pad2 mi, '':'' @ ?t5) # m4" using re_M_pad2[OF v(8)] by blast
  obtain m5 where m5: "re_S ?t5 = (pad2 s, []) # m5" using re_S_pad2[OF v(9), of "[]"] by auto
  have "\<exists>more. strptime_matches (date_text st) = ((pad4 y, pad2 m, pad2 d, pad2 h, pad2 mi, pad2 s), []) # more"
    unfolding tx strptime_matches_def
    using m1 m2 m3 m4 m5 sp re_Y_pad4[OF v(2), of "''-'' @ ?t1"]
    by simp
  then obtain more where
    "strptime_matches (date_text st) = ((pad4 y, pad2 m, pad2 d, pad2 h, pad2 mi, pad2 s), []) # more"
    by blast
  then have "strptime (date_text st)
      = datetime (group_int (pad4 y)) (group_int (pad2 m)) (group_int (pad2 d))
                 (group_int (pad2 h)) (group_int (pad2 mi)) (group_int (pad2 s)) 0"
    by (simp add: strptime_def)
  also have "\<dots> = datetime (int y) (int m) (int d) (int h) (int mi) (int s) 0"
    using v d31 by (simp add: group_int_pad2 group_int_pad4)
  also have "\<dots> = Inr (instant st)"
    unfolding st using assms[unfolded st] by (rule datetime_instant)
  finally show ?thesis .
qed

subsection \<open>Scanning the logger's lines\<close>


lemma digit_chars:
  assumes "n < 10"
  shows "digit n \<noteq> CHR ''|''" "digit n \<noteq> CHR '',''" "digit n \<noteq> CHR ''.''"
    "digit n \<noteq> CHR 0x0A" "digit n \<noteq> CHR 0x0D"
  using assms by (simp_all add: digit_eq_iff)

lemma pad2_chars:
  assumes "n < 100" and "c \<in> set (pad2 n)"
  shows "c \<noteq> CHR ''|'' \<and> c \<noteq> CHR '','' \<and> c \<noteq> CHR ''.'' \<and> c \<noteq> CHR 0x0A \<and> c \<noteq> CHR 0x0D"
proof -
  have "n div 10 < 10" "n mod 10 < 10" using assms(1) by simp_all
  with assms(2) show ?thesis by (auto simp: pad2_def digit_chars)
qed

lemma pad3_chars:
  assumes "n < 1000" and "c \<in> set (pad3 n)"
  shows "c \<noteq> CHR ''|'' \<and> c \<noteq> CHR 0x0A \<and> c \<noteq> CHR 0x0D"
proof -
  have "n div 100 < 10" "n div 10 mod 10 < 10" "n mod 10 < 10" using assms(1) by simp_all
  with assms(2) show ?thesis by (auto simp: pad3_def digit_chars)
qed

lemma pad4_chars:
  assumes "n \<le> 9999" and "c \<in> set (pad4 n)"
  shows "c \<noteq> CHR ''|'' \<and> c \<noteq> CHR '','' \<and> c \<noteq> CHR ''.'' \<and> c \<noteq> CHR 0x0A \<and> c \<noteq> CHR 0x0D"
proof -
  have "n div 1000 < 10" "n div 100 mod 10 < 10" "n div 10 mod 10 < 10" "n mod 10 < 10"
    using assms(1) by simp_all
  with assms(2) show ?thesis by (auto simp: pad4_def digit_chars)
qed

lemma date_text_chars:
  assumes "valid_stamp st" and "c \<in> set (date_text st)"
  shows "c \<noteq> CHR ''|'' \<and> c \<noteq> CHR '','' \<and> c \<noteq> CHR ''.'' \<and> c \<noteq> CHR 0x0A \<and> c \<noteq> CHR 0x0D"
proof -
  obtain y m d h mi s ms where st: "st = Stamp y m d h mi s ms" by (cases st)
  from assms(1) st have v: "y \<le> 9999" "m < 100" "d < 100" "h < 100" "mi < 100" "s < 100"
    using month_length_le[of y m] by auto
  from assms(2) have "c \<in> set (pad4 y) \<or> c \<in> set (pad2 m) \<or> c \<in> set (pad2 d) \<or> c \<in> set (pad2 h)
      \<or> c \<in> set (pad2 mi) \<or> c \<in> set (pad2 s) \<or> c = CHR ''-'' \<or> c = CHR '' '' \<or> c = CHR '':''"
    unfolding st by auto
  then show ?thesis
    using pad4_chars[OF v(1), of c] pad2_chars[OF v(2), of c] pad2_chars[OF v(3), of c]
      pad2_chars[OF v(4), of c] pad2_chars[OF v(5), of c] pad2_chars[OF v(6), of c]
    by (elim disjE) simp_all
qed

lemma asctime_text_chars:
  assumes "valid_stamp st" and "c \<in> set (asctime_text st)"
  shows "c \<noteq> CHR ''|'' \<and> c \<noteq> CHR 0x0A \<and> c \<noteq> CHR 0x0D"
proof -
  obtain y m d h mi s ms where st: "st = Stamp y m d h mi s ms" by (cases st)
  from assms(1) st have ms: "ms < 1000" by simp
  from assms(2) have "c \<in> set (date_text st) \<or> c = CHR '','' \<or> c \<in> set (pad3 ms)"
    unfolding st by auto
  then show ?thesis using date_text_chars[OF assms(1)] pad3_chars[OF ms] by auto
qed

lemma discard_millisecs_asctime:
  assumes "valid_stamp st"
  shows "discard_millisecs (asctime_text st @ '' '') = date_text st"
proof -
  obtain y m d h mi s ms where st: "st = Stamp y m d h mi s ms" by (cases st)
  have a: "asctime_text st @ '' '' = date_text st @ CHR '','' # (pad3 ms @ '' '')" by (simp add: st)
  have "\<forall>c\<in>set (date_text st). c \<noteq> CHR '','' \<and> c \<noteq> CHR ''.''"
    using date_text_chars[OF assms] by blast
  then show ?thesis unfolding discard_millisecs_takeWhile a
    by (simp add: takeWhile_append2)
qed

lemma marker_in_field:
  "str_find ('' '' @ msg @ [CHR 0x0A]) log_msg \<noteq> - 1 \<longleftrightarrow> has_marker msg"
proof -
  have "(\<exists>before after. '' '' @ msg @ [CHR 0x0A] = before @ log_msg @ after) \<longleftrightarrow> has_marker msg"
  proof
    assume "\<exists>before after. '' '' @ msg @ [CHR 0x0A] = before @ log_msg @ after"
    then obtain b a where e: "'' '' @ msg @ [CHR 0x0A] = b @ log_msg @ a" by blast
    have b: "b \<noteq> []"
    proof
      assume "b = []"
      with e have "hd ('' '' @ msg @ [CHR 0x0A]) = hd log_msg" by (simp add: log_msg_def)
      then show False by (simp add: log_msg_def)
    qed
    have a: "a \<noteq> []"
    proof
      assume "a = []"
      with e have "last ('' '' @ msg @ [CHR 0x0A]) = last (b @ log_msg)" by simp
      then show False by (simp add: log_msg_def)
    qed
    from b obtain b' where b': "b = CHR '' '' # b'" using e by (cases b) auto
    from a obtain a' where a': "a = a' @ [CHR 0x0A]"
      using e by (metis append_assoc append_butlast_last_id last_appendR last_snoc)
    from e b' a' have "msg @ [CHR 0x0A] = (b' @ log_msg @ a') @ [CHR 0x0A]" by simp
    then have "msg = b' @ log_msg @ a'" by (simp only: append_same_eq)
    then show "has_marker msg" unfolding has_marker_def by blast
  next
    assume "has_marker msg"
    then obtain b a where "msg = b @ log_msg @ a" unfolding has_marker_def by blast
    then have "'' '' @ msg @ [CHR 0x0A] = ('' '' @ b) @ log_msg @ (a @ [CHR 0x0A])" by simp
    then show "\<exists>before after. '' '' @ msg @ [CHR 0x0A] = before @ log_msg @ after" by blast
  qed
  then show ?thesis by (simp add: str_find_found)
qed

lemma scan_line_logger_line:
  assumes "valid_stamp st" and "plain_message msg"
  shows "scan_line (logger_line LF (st, msg)) = (if has_marker msg then Inr (Some (instant st)) else Inr None)"
proof -
  have l: "logger_line LF (st, msg) = (asctime_text st @ '' '') @ CHR ''|'' # ('' '' @ msg @ [CHR 0x0A])"
    by (simp add: logger_line_def)
  have n1: "CHR ''|'' \<notin> set (asctime_text st @ '' '')"
    using asctime_text_chars[OF assms(1)] by auto
  have n2: "CHR ''|'' \<notin> set ('' '' @ msg @ [CHR 0x0A])"
    using assms(2) by (simp add: plain_message_def)
  have sp: "split_on CHR ''|'' (logger_line LF (st, msg)) = [asctime_text st @ '' '', '' '' @ msg @ [CHR 0x0A]]"
    unfolding l using n1 n2 by (simp only: split_on_two) simp
  show ?thesis
    unfolding scan_line_def sp
    by (simp add: marker_in_field discard_millisecs_asctime[OF assms(1)] strptime_date_text[OF assms(1)]
             del: append.simps append_Cons append_Nil)
qed

lemma universal_newlines_Cons:
  "c \<noteq> CHR 0x0D \<Longrightarrow> universal_newlines (c # cs) = c # universal_newlines cs"
  by (cases cs) simp_all

lemma universal_newlines_body:
  "CHR 0x0D \<notin> set body \<Longrightarrow> universal_newlines (body @ rest) = body @ universal_newlines rest"
proof (induction body)
  case Nil
  then show ?case by simp
next
  case (Cons a body)
  then have a: "a \<noteq> CHR 0x0D" and b: "CHR 0x0D \<notin> set body" by auto
  show ?case using universal_newlines_Cons[OF a, of "body @ rest"] Cons.IH[OF b] by simp
qed

lemma universal_newlines_line_end:
  assumes "rest = [] \<or> hd rest \<noteq> CHR 0x0A"
  shows "universal_newlines (line_end_text eol @ rest) = CHR 0x0A # universal_newlines rest"
proof (cases eol)
  case LF
  then show ?thesis by (simp add: universal_newlines_Cons)
next
  case CRLF
  then show ?thesis by simp
next
  case CR
  with assms show ?thesis by (cases rest) simp_all
qed

lemma readlines_cons_line:
  assumes "CHR 0x0A \<notin> set body"
  shows "readlines (body @ CHR 0x0A # rest) = (body @ [CHR 0x0A]) # readlines rest"
  using assms by (induction body) auto

lemma asctime_text_hd:
  assumes "valid_stamp st"
  shows "asctime_text st \<noteq> [] \<and> hd (asctime_text st @ rest) \<noteq> CHR 0x0A"
proof -
  obtain y m d h mi s ms where st: "st = Stamp y m d h mi s ms" by (cases st)
  have ne: "asctime_text st \<noteq> []" by (simp add: st)
  then have "hd (asctime_text st @ rest) \<in> set (asctime_text st)" by simp
  with asctime_text_chars[OF assms] ne show ?thesis by blast
qed

lemma logger_lines_start:
  assumes "\<forall>ev\<in>set evs. valid_stamp (fst ev) \<and> plain_message (snd ev)"
  shows "concat (map (logger_line eol) evs) = [] \<or> hd (concat (map (logger_line eol) evs)) \<noteq> CHR 0x0A"
proof (cases evs)
  case Nil
  then show ?thesis by simp
next
  case (Cons ev evs')
  with assms have v: "valid_stamp (fst ev)" by simp
  have "concat (map (logger_line eol) evs)
      = asctime_text (fst ev) @ ('' | '' @ snd ev @ line_end_text eol @ concat (map (logger_line eol) evs'))"
    by (simp add: Cons logger_line_def)
  then show ?thesis using asctime_text_hd[OF v, of "[]"] asctime_text_hd[OF v] by simp
qed

lemma readlines_logger_lines:
  assumes "\<forall>ev\<in>set evs. valid_stamp (fst ev) \<and> plain_message (snd ev)"
  shows "readlines (universal_newlines (concat (map (logger_line eol) evs))) = map (logger_line LF) evs"
  using assms
proof (induction evs)
  case Nil
  then show ?case by simp
next
  case (Cons ev evs)
  let ?body = "asctime_text (fst ev) @ '' | '' @ snd ev"
  let ?rest = "concat (map (logger_line eol) evs)"
  from Cons.prems have v: "valid_stamp (fst ev)" "plain_message (snd ev)"
    and vs: "\<forall>ev\<in>set evs. valid_stamp (fst ev) \<and> plain_message (snd ev)" by simp_all
  have n: "CHR 0x0A \<notin> set ?body" "CHR 0x0D \<notin> set ?body"
    using asctime_text_chars[OF v(1)] v(2) by (auto simp: plain_message_def)
  have c: "concat (map (logger_line eol) (ev # evs)) = ?body @ (line_end_text eol @ ?rest)"
    by (simp add: logger_line_def)
  have u: "universal_newlines (concat (map (logger_line eol) (ev # evs)))
         = ?body @ CHR 0x0A # universal_newlines ?rest"
    unfolding c universal_newlines_body[OF n(2)]
      universal_newlines_line_end[OF logger_lines_start[OF vs]] ..
  have l: "?body @ [CHR 0x0A] = logger_line LF ev" by (simp add: logger_line_def)
  show ?case unfolding u readlines_cons_line[OF n(1)] l Cons.IH[OF vs] by simp
qed

lemma count_logger_lines:
  assumes "\<forall>ev\<in>set evs. valid_stamp (fst ev) \<and> plain_message (snd ev)"
  shows "count_recent (today - 24 * hour_us) (scan_lines (map (logger_line LF) evs) []) 0
           = int (length (filter (recent_reboot_event today) evs))"
proof -
  have "length (filter (\<lambda>l. \<exists>t. scan_line l = Inr (Some t) \<and> t > today - 24 * hour_us) (map (logger_line LF) evs))
      = length (filter (recent_reboot_event today) evs)"
    using assms
  proof (induction evs)
    case Nil
    then show ?case by simp
  next
    case (Cons ev evs)
    obtain st msg where ev: "ev = (st, msg)" by (cases ev)
    from Cons.prems ev have v: "valid_stamp st" "plain_message msg" by simp_all
    have "(\<exists>t. scan_line (logger_line LF ev) = Inr (Some t) \<and> t > today - 24 * hour_us)
        \<longleftrightarrow> recent_reboot_event today ev"
      unfolding ev scan_line_logger_line[OF v]
      by (simp add: recent_reboot_event_def hour_us_def second_us_def)
    with Cons show ?case by simp
  qed
  then show ?thesis by (simp add: count_scan_lines)
qed

lemma num_reboots_24h_logger_lines:
  assumes "files s (log_file cfg) = Some raw" and "decode e raw = Some content"
    and "datetime_sub_hours (now e) 24 = Inr yesterday"
    and "content = concat (map (logger_line eol) evs)"
    and "\<forall>ev\<in>set evs. valid_stamp (fst ev) \<and> plain_message (snd ev)"
  shows "fst (num_reboots_24h cfg e s) = Inr (int (length (filter (recent_reboot_event (now e)) evs)))"
proof -
  have y: "yesterday = now e - 24 * hour_us" using assms(3) by (rule datetime_sub_hours_Inr)
  show ?thesis
    unfolding num_reboots_24h_Some[OF assms(1-3)] assms(4) readlines_logger_lines[OF assms(5)] y
      count_logger_lines[OF assms(5)]
    by simp
qed



section \<open>Properties of the reboot decision\<close>

lemma log_fatal_simps [simp]:
  "trace (log_fatal e m s) = trace s @ [Fatal m]"
  "npings (log_fatal e m s) = npings s"
  by (simp_all add: log_fatal_def emit_def)

lemma log_debug_simps [simp]:
  "trace (log_debug m s) = trace s @ [Debug m]"
  "npings (log_debug m s) = npings s"
  "files (log_debug m s) = files s"
  by (simp_all add: log_debug_def emit_def)

lemma emit_simps [simp]:
  "trace (emit x s) = trace s @ [x]"
  "npings (emit x s) = npings s"
  "files (emit x s) = files s"
  by (simp_all add: emit_def)

lemma ping_attempts_general:
  assumes "ping_attempts cfg e s = (r, s')"
  shows "\<exists>es. trace s' = trace s @ es
       \<and> (\<forall>x\<in>set es. is_probing x \<or> x = Fatal ''ping command not found'')
       \<and> ((\<exists>f. r = Inr f) \<longrightarrow> files s' = files s \<and> (\<forall>x\<in>set es. is_probing x))"
proof (cases "ping_on_path e")
  case True
  from ping_attempts_spec[OF True assms] show ?thesis by blast
next
  case False
  with assms have "r = Inl (SystemExit 1)" "s' = log_fatal e ''ping command not found'' s"
    by (auto simp: ping_attempts_def)
  then show ?thesis by (intro exI[of _ "[Fatal ''ping command not found'']"]) simp
qed

lemma ping_host_loop_general:
  assumes "ping_host_loop cfg e count s = (r, s')"
  shows "\<exists>es. trace s' = trace s @ es
       \<and> (\<forall>x\<in>set es. is_probing x \<or> x = Fatal ''ping command not found'')
       \<and> ((\<exists>b. r = Inr b) \<longrightarrow> files s' = files s \<and> (\<forall>x\<in>set es. is_probing x))"
  using assms
proof (induction cfg e count s arbitrary: r s' rule: ping_host_loop.induct)
  case (1 cfg e count s)
  show ?case
  proof (cases "count < retries cfg")
    case False
    with "1.prems" have "r = Inr False" "s' = s" by (auto simp: ping_host_loop.simps)
    then show ?thesis by (intro exI[of _ "[]"]) auto
  next
    case True
    obtain r1 s1 where sl: "(if count > 0 then retry_sleep cfg s else (Inr (), s)) = (r1, s1)"
      by (cases "(if count > 0 then retry_sleep cfg s else (Inr (), s))")
    then obtain es1 where es1: "trace s1 = trace s @ es1" "files s1 = files s" "\<forall>x\<in>set es1. is_probing x"
      using retry_sleep_spec[of cfg s r1 s1] by (cases "count > 0") auto
    show ?thesis
    proof (cases r1)
      case (Inl err)
      with "1.prems" True sl have "r = Inl err" "s' = s1" by (auto simp: ping_host_loop.simps)
      with es1 show ?thesis by (intro exI[of _ es1]) auto
    next
      case (Inr u)
      obtain r2 s2 where pa: "ping_attempts cfg e s1 = (r2, s2)" by (cases "ping_attempts cfg e s1")
      from ping_attempts_general[OF pa] obtain es2 where es2:
        "trace s2 = trace s1 @ es2" "\<forall>x\<in>set es2. is_probing x \<or> x = Fatal ''ping command not found''"
        "(\<exists>f. r2 = Inr f) \<longrightarrow> files s2 = files s1 \<and> (\<forall>x\<in>set es2. is_probing x)" by blast
      show ?thesis
      proof (cases r2)
        case err: (Inl err)
        with "1.prems" True sl Inr pa have "r = Inl err" "s' = s2"
          by (auto simp: ping_host_loop.simps[of cfg e count s])
        with es1 es2 show ?thesis by (intro exI[of _ "es1 @ es2"]) auto
      next
        case f: (Inr f)
        let ?s3 = "log_debug (FailedAttempts f) s2"
        have s3: "trace ?s3 = trace s @ es1 @ es2 @ [Debug (FailedAttempts f)]" "files ?s3 = files s"
          "\<forall>x\<in>set es2. is_probing x"
          using es1 es2 f by auto
        show ?thesis
        proof (cases "f \<le> attempts cfg")
          case ok: True
          with "1.prems" True sl Inr pa f have "r = Inr True" "s' = ?s3"
            by (auto simp: ping_host_loop.simps[of cfg e count s] Let_def)
          with s3 es1 show ?thesis
            by (intro exI[of _ "es1 @ es2 @ [Debug (FailedAttempts f)]"]) auto
        next
          case no: False
          with "1.prems" True sl Inr pa f have rec: "ping_host_loop cfg e (count + 1) ?s3 = (r, s')"
            by (auto simp: ping_host_loop.simps[of cfg e count s] Let_def)
          from "1.IH"[OF True sl[symmetric] Inr pa[symmetric] f refl no rec]
          obtain es where es: "trace s' = trace ?s3 @ es"
            "\<forall>x\<in>set es. is_probing x \<or> x = Fatal ''ping command not found''"
            "(\<exists>b. r = Inr b) \<longrightarrow> files s' = files ?s3 \<and> (\<forall>x\<in>set es. is_probing x)" by blast
          show ?thesis
            using es s3 es1
            by (intro exI[of _ "es1 @ es2 @ [Debug (FailedAttempts f)] @ es"]) auto
        qed
      qed
    qed
  qed
qed

lemma MyLog_notify_trace:
  "trace (MyLog_notify e s) = trace s @ Fatal log_msg # (if os_nt e then [] else [LoggerCmd log_msg])"
  by (simp add: MyLog_notify_def Let_def)

lemma Pushover_notify_trace:
  "trace (Pushover_notify p e s) = trace s @
     (if length (key p) < 30 \<or> length (token p) < 30 then [Debug PushoverNotConfigured]
      else [HttpsPost (''ping failed. performing reboot for '' @ hostname e) (key p) (token p),
            Debug (if https e = Status 200 then PushoverSent else PushoverFailed)])"
  by (simp add: Pushover_notify_def Let_def split: http_outcome.splits)

lemma send_reboot_cmd_eq:
  "send_reboot_cmd cfg e s =
     (reboot_status e = 0, emit (RebootCmd (if os_nt e then reboot_cmd_win cfg else reboot_cmd_nix cfg)) s)"
  by (simp add: send_reboot_cmd_def Let_def)

lemma num_reboots_24h_cases:
  assumes "num_reboots_24h cfg e s = (r, s1)"
  shows "(r = Inl OSError \<and> s1 = s \<and> files s (log_file cfg) = None)
       \<or> (\<exists>raw. files s (log_file cfg) = Some raw \<and> s1 = emit (ReadLog (log_file cfg)) s
            \<and> ((r = Inl UnicodeDecodeError \<and> decode e raw = None)
               \<or> (\<exists>content. decode e raw = Some content
                    \<and> ((r = Inl OverflowError \<and> datetime_sub_hours (now e) 24 = Inl OverflowError)
                       \<or> (\<exists>y. datetime_sub_hours (now e) 24 = Inr y
                             \<and> r = Inr (count_recent y
                                   (scan_lines (readlines (universal_newlines content)) []) 0))))))"
  using assms
  by (auto simp: num_reboots_24h_def Let_def datetime_sub_hours_def split: option.splits sum.splits if_splits)

lemma notify_and_reboot_throttled:
  assumes "num_reboots_24h cfg e s = (Inr n, s1)" and "n \<ge> max_reboots_per_day cfg"
  shows "fst (notify_and_reboot cfg e s) = Inr ()"
    and "trace (snd (notify_and_reboot cfg e s)) = trace s @
           [ReadLog (log_file cfg), Debug (NumReboots n),
            Fatal ''reboot canceled. max reboots allowed in 24h reached'']"
  using assms num_reboots_24h_cases[OF assms(1)]
  by (auto simp: notify_and_reboot_def Let_def)

lemma notify_and_reboot_proceeds:
  assumes "num_reboots_24h cfg e s = (Inr n, s1)" and "n < max_reboots_per_day cfg"
  shows "fst (notify_and_reboot cfg e s) = Inr ()"
    and "trace (snd (notify_and_reboot cfg e s)) = trace s @
           [ReadLog (log_file cfg), Debug (NumReboots n), Fatal log_msg]
           @ (if os_nt e then [] else [LoggerCmd log_msg])
           @ (if length (pushover_user_key cfg) < 30 \<or> length (pushover_api_token cfg) < 30
              then [Debug PushoverNotConfigured]
              else [HttpsPost (''ping failed. performing reboot for '' @ hostname e)
                      (pushover_user_key cfg) (pushover_api_token cfg),
                    Debug (if https e = Status 200 then PushoverSent else PushoverFailed)])
           @ RebootCmd (if os_nt e then reboot_cmd_win cfg else reboot_cmd_nix cfg)
           # (if reboot_status e \<noteq> 0 then [Fatal ''reboot command failed''] else [])"
proof -
  from num_reboots_24h_cases[OF assms(1)] have s1: "s1 = emit (ReadLog (log_file cfg)) s" by auto
  show "fst (notify_and_reboot cfg e s) = Inr ()"
    using assms by (auto simp: notify_and_reboot_def Let_def send_reboot_cmd_eq)
  show "trace (snd (notify_and_reboot cfg e s)) = trace s @
           [ReadLog (log_file cfg), Debug (NumReboots n), Fatal log_msg]
           @ (if os_nt e then [] else [LoggerCmd log_msg])
           @ (if length (pushover_user_key cfg) < 30 \<or> length (pushover_api_token cfg) < 30
              then [Debug PushoverNotConfigured]
              else [HttpsPost (''ping failed. performing reboot for '' @ hostname e)
                      (pushover_user_key cfg) (pushover_api_token cfg),
                    Debug (if https e = Status 200 then PushoverSent else PushoverFailed)])
           @ RebootCmd (if os_nt e then reboot_cmd_win cfg else reboot_cmd_nix cfg)
           # (if reboot_status e \<noteq> 0 then [Fatal ''reboot command failed''] else [])"
    using assms s1
    by (simp add: notify_and_reboot_def Let_def send_reboot_cmd_eq MyLog_notify_trace Pushover_notify_trace)
qed

lemma num_reboots_24h_https:
  "num_reboots_24h cfg (e\<lparr>https := out\<rparr>) s = num_reboots_24h cfg e s"
  by (simp add: num_reboots_24h_def Let_def split: option.splits)

lemma ping_host_general:
  assumes "ping_host cfg e s = (r, s')"
  shows "\<exists>es. trace s' = trace s @ es
       \<and> (\<forall>x\<in>set es. is_probing x \<or> x = Fatal ''ping command not found'')
       \<and> ((\<exists>b. r = Inr b) \<longrightarrow> files s' = files s \<and> (\<forall>x\<in>set es. is_probing x))"
  using assms unfolding ping_host_def by (rule ping_host_loop_general)

text \<open>
  What \<^verbatim>\<open>ping_host\<close> has done when it returns false: as many rounds as \<open>retries\<close> says
  (none when \<open>retries \<le> 0\<close>), every one with a failure count above \<open>attempts\<close>.
\<close>

lemma ping_host_false_rounds:
  assumes "ping_on_path e" and "ping_host cfg e s = (Inr False, s')"
  shows "int (length (rounds (events_since s s'))) = max 0 (retries cfg)"
    and "\<forall>f\<in>set (rounds (events_since s s')). attempts cfg < f"
proof -
  from ping_host_loop_spec[OF assms(1) assms(2)[unfolded ping_host_def]]
  obtain es where es: "trace s' = trace s @ es"
       "\<forall>f\<in>set (butlast (rounds es)). f > attempts cfg"
       "Inr False = (Inr True :: error + bool) \<longleftrightarrow> rounds es \<noteq> [] \<and> last (rounds es) \<le> attempts cfg"
       "int (length (rounds es)) = max 0 (retries cfg - 0)"
    by blast
  have ev: "events_since s s' = es" using es(1) by simp
  show "int (length (rounds (events_since s s'))) = max 0 (retries cfg)"
    unfolding ev using es(4) by simp
  show "\<forall>f\<in>set (rounds (events_since s s')). attempts cfg < f"
  proof (cases "rounds es = []")
    case True
    then show ?thesis unfolding ev by simp
  next
    case False
    with es(3) have "attempts cfg < last (rounds es)" by simp
    moreover have "rounds es = butlast (rounds es) @ [last (rounds es)]" using False by simp
    ultimately show ?thesis unfolding ev using es(2)
      by (metis Un_iff empty_iff empty_set insert_iff list.simps(15) set_append)
  qed
qed

lemma probing_not_action:
  "is_probing x \<Longrightarrow> \<not> is_local_notification x \<and> \<not> is_push x \<and> \<not> is_reboot x \<and> \<not> is_fatal x \<and> \<not> is_read_log x"
  by (cases x) auto

lemma main_unreachable:
  assumes "ping_host cfg e s = (Inr False, s1)"
  shows "main cfg e s = notify_and_reboot cfg e s1"
    and "files s1 = files s"
    and "\<exists>es. trace s1 = trace s @ es \<and> (\<forall>x\<in>set es. is_probing x)"
  using assms ping_host_general[OF assms] by (auto simp: main_def)

lemma split_at_unique:
  assumes "\<forall>x\<in>set xs. \<not> P x" and "\<forall>x\<in>set ys. \<not> P x" and "P b"
    and "xs @ a # ys = us @ b # vs"
  shows "us = xs \<and> b = a \<and> vs = ys"
  using assms
proof (induction xs arbitrary: us)
  case Nil
  show ?case
  proof (cases us)
    case Nil
    with Nil.prems show ?thesis by simp
  next
    case (Cons u us')
    with Nil.prems have "ys = us' @ b # vs" by simp
    with Nil.prems(2,3) show ?thesis by auto
  qed
next
  case (Cons x xs)
  show ?case
  proof (cases us)
    case Nil
    with Cons.prems have "b = x" by simp
    with Cons.prems(1,3) show ?thesis by simp
  next
    case (Cons u us')
    with Cons.prems(4) have u: "u = x" and eq: "xs @ a # ys = us' @ b # vs" by simp_all
    from Cons.prems(1) have "\<forall>x\<in>set xs. \<not> P x" by simp
    from Cons.IH[OF this Cons.prems(2,3) eq] have "us' = xs \<and> b = a \<and> vs = ys" .
    with u \<open>us = u # us'\<close> show ?thesis by simp
  qed
qed

lemma no_split_without:
  assumes "\<forall>x\<in>set xs. \<not> P x" and "P b"
  shows "xs \<noteq> us @ b # vs"
  using assms by auto

lemma notify_and_reboot_no_push:
  assumes "length (pushover_user_key cfg) < 30 \<or> length (pushover_api_token cfg) < 30"
  shows "\<exists>es. trace (snd (notify_and_reboot cfg e s)) = trace s @ es \<and> (\<forall>x\<in>set es. \<not> is_push x)"
proof -
  obtain rn s1 where n: "num_reboots_24h cfg e s = (rn, s1)" by (cases "num_reboots_24h cfg e s")
  show ?thesis
  proof (cases rn)
    case (Inl err)
    with n have "snd (notify_and_reboot cfg e s) = s1" by (simp add: notify_and_reboot_def)
    moreover from num_reboots_24h_cases[OF n] have "s1 = s \<or> s1 = emit (ReadLog (log_file cfg)) s" by auto
    ultimately have "trace (snd (notify_and_reboot cfg e s)) = trace s @ []
        \<or> trace (snd (notify_and_reboot cfg e s)) = trace s @ [ReadLog (log_file cfg)]" by auto
    then show ?thesis by (elim disjE) (intro exI conjI, assumption, simp)+
  next
    case (Inr k)
    show ?thesis
    proof (cases "max_reboots_per_day cfg \<le> k")
      case True
      from notify_and_reboot_throttled(2)[OF n[unfolded Inr] True] show ?thesis
        by (intro exI conjI, assumption) simp
    next
      case False
      then have lt: "k < max_reboots_per_day cfg" by simp
      note tr = notify_and_reboot_proceeds(2)[OF n[unfolded Inr] lt]
      show ?thesis
        by (rule exI, rule conjI, rule tr) (use assms in auto)
    qed
  qed
qed

lemma main_no_push:
  assumes "length (pushover_user_key cfg) < 30 \<or> length (pushover_api_token cfg) < 30"
  shows "filter is_push (events_since s (snd (main cfg e s))) = []"
proof -
  obtain r1 s1 where ph: "ping_host cfg e s = (r1, s1)" by (cases "ping_host cfg e s")
  from ping_host_general[OF ph] obtain es where es: "trace s1 = trace s @ es"
    "\<forall>x\<in>set es. is_probing x \<or> x = Fatal ''ping command not found''" by blast
  have np: "\<forall>x\<in>set es. \<not> is_push x" using es(2) by (auto dest: probing_not_action)
  from notify_and_reboot_no_push[OF assms, of e s1] obtain ns where
    ns: "trace (snd (notify_and_reboot cfg e s1)) = trace s1 @ ns" "\<forall>x\<in>set ns. \<not> is_push x" by blast
  have "snd (main cfg e s) = s1 \<or> snd (main cfg e s) = log_fatal e ''no reboot required'' s1
        \<or> snd (main cfg e s) = snd (notify_and_reboot cfg e s1)"
    using ph by (auto simp: main_def split: sum.splits)
  then have "events_since s (snd (main cfg e s)) = es
      \<or> events_since s (snd (main cfg e s)) = es @ [Fatal ''no reboot required'']
      \<or> events_since s (snd (main cfg e s)) = es @ ns"
    using es(1) ns(1) by (auto simp: events_since_def)
  with np ns(2) show ?thesis by (auto simp: filter_empty_conv)
qed


section \<open>Facts about the example runs\<close>

lemmas scenario_defs = scenario_cfg_def small_cfg_def scenario_env_def scenario_state_def config_items_def scenario_now_def

lemmas probe_defs = ping_host_def ping_host_loop.simps ping_attempts_def ping_once_def retry_sleep_def
     log_debug_def emit_def Let_def eval_nat_numeral

lemma scenario_lines:
  "readlines (universal_newlines scenario_log)
     = [line_1h, line_23h, line_25h, line_no_delimiter, line_bad_date, line_other_message, line_two_delimiters]"
  by code_simp

lemma scan_line_examples:
  "scan_line line_1h = Inr (Some (scenario_now - 1 * hour_us))"
  "scan_line line_23h = Inr (Some (scenario_now - 23 * hour_us))"
  "scan_line line_25h = Inr (Some (scenario_now - 25 * hour_us))"
  "scan_line line_no_delimiter = Inl ValueError"
  "scan_line line_bad_date = Inl ValueError"
  "scan_line line_other_message = Inr None"
  "scan_line line_two_delimiters = Inl ValueError"
  "scan_line line_no_fraction = Inl ValueError"
  by code_simp+

lemma scenario_yesterday:
  "datetime_sub_hours (now (scenario_env st)) 24 = Inr (scenario_now - 24 * hour_us)"
  by (simp add: scenario_env_def scenario_now_def datetime_sub_hours_def ymd2ord_def days_before_year_def
       days_before_month_def DAYS_IN_MONTH_def is_leap_def day_us_def hour_us_def second_us_def MAXORDINAL_def)

lemma hour_us_pos: "0 < hour_us" by (simp add: hour_us_def second_us_def)

lemma scenario_count:
  "count_recent (scenario_now - 24 * hour_us) (scan_lines (readlines (universal_newlines scenario_log)) []) 0 = 2"
  using hour_us_pos by (simp add: scenario_lines scan_line_examples)

lemma scenario_decode:
  "decode (scenario_env st) = ascii_decode"
  by (simp add: scenario_env_def)

lemma ascii_decode_examples:
  "ascii_decode [] = Some []"
  "ascii_decode scenario_log = Some scenario_log"
  "ascii_decode three_line_log = Some three_line_log"
  by code_simp+

lemma scenario_files:
  "files (scenario_state content) ''w.log'' = Some content"
  by (simp add: scenario_state_def)

lemma scenario_log_file:
  "log_file scenario_cfg = ''w.log''" "log_file small_cfg = ''w.log''" "log_file throttled_cfg = ''w.log''"
  by (simp_all add: scenario_cfg_def small_cfg_def throttled_cfg_def config_items_def)

lemma scenario_ping_down_fst:
  "fst (ping_host throttled_cfg (scenario_env 1) (scenario_state content)) = Inr False"
  by (simp add: throttled_cfg_def scenario_defs probe_defs)

lemma scenario_ping_down:
  "ping_host throttled_cfg (scenario_env 1) (scenario_state content)
     = (Inr False, snd (ping_host throttled_cfg (scenario_env 1) (scenario_state content)))"
  using scenario_ping_down_fst[of content] by (simp add: prod_eq_iff)

lemma scenario_ping_down_files:
  "files (snd (ping_host throttled_cfg (scenario_env 1) (scenario_state content))) = files (scenario_state content)"
  by (simp add: throttled_cfg_def scenario_defs probe_defs)

lemma three_lines:
  "readlines (universal_newlines three_line_log) = [line_1h, line_23h, line_25h]"
  by code_simp

lemma small_run_trace:
  "trace (snd (main small_cfg (scenario_env 1) (scenario_state []))) =
     [Debug (Pinging ''127.0.0.1''), PingCmd ''ping -c 1 -W'' 2 ''127.0.0.1'' ''/dev/null'',
      Debug (Pinging ''127.0.0.1''), PingCmd ''ping -c 1 -W'' 2 ''127.0.0.1'' ''/dev/null'',
      Debug (FailedAttempts 2)]
     @ ReadLog ''w.log'' #
     [Debug (NumReboots 0), Fatal log_msg, LoggerCmd log_msg, Debug PushoverNotConfigured,
      RebootCmd ''sudo /sbin/shutdown --no-wall --reboot +2'']"
  by code_simp

lemma small_run_result:
  "fst (main small_cfg (scenario_env 1) (scenario_state [])) = Inr ()"
  by code_simp

lemma small_run_file:
  "files (snd (main small_cfg (scenario_env 1) (scenario_state []))) ''w.log''
     = Some (''2021-08-12 12:00:00,000 | (ping-watchdog) ping failed. requesting reboot'' @ [CHR 0x0A])"
  by code_simp

lemma small_run_next_count:
  "fst (num_reboots_24h small_cfg (scenario_env 1) (snd (main small_cfg (scenario_env 1) (scenario_state [])))) = Inr 1"
  by code_simp

lemma empty_log_count:
  "num_reboots_24h cfg (scenario_env st) (scenario_state []) 
     = (if log_file cfg = ''w.log'' then (Inr 0, emit (ReadLog (log_file cfg)) (scenario_state []))
        else (Inl OSError, scenario_state []))"
  using scenario_yesterday[of st]
  by (simp add: num_reboots_24h_def scenario_state_def Let_def scenario_decode ascii_decode_examples)


subsection \<open>The three-line log as logger output\<close>

lemma three_line_log_logger:
  "three_line_log = concat (map (logger_line LF)
     [(Stamp 2021 8 12 11 0 0 0, log_msg), (Stamp 2021 8 11 13 0 0 0, log_msg),
      (Stamp 2021 8 11 11 0 0 0, log_msg)])"
  by code_simp

lemma scenario_stamps_valid:
  "valid_stamp (Stamp 2021 8 12 11 0 0 0)" "valid_stamp (Stamp 2021 8 11 13 0 0 0)"
  "valid_stamp (Stamp 2021 8 11 11 0 0 0)"
  by (simp_all add: month_length_def)

lemma scenario_instants:
  "instant (Stamp 2021 8 12 11 0 0 0) = now (scenario_env st) - 1 * 3600 * 1000000"
  "instant (Stamp 2021 8 11 13 0 0 0) = now (scenario_env st) - 23 * 3600 * 1000000"
  "instant (Stamp 2021 8 11 11 0 0 0) = now (scenario_env st) - 25 * 3600 * 1000000"
proof -
  have n: "now (scenario_env st) = 63764452800000000"
    by (simp add: scenario_env_def scenario_now_def ymd2ord_def days_before_year_def
       days_before_month_def DAYS_IN_MONTH_def is_leap_def day_us_def hour_us_def second_us_def)
  have d: "datetime 2021 8 12 11 0 0 0 = Inr (63764452800000000 - 1 * 3600 * 1000000)"
    "datetime 2021 8 11 13 0 0 0 = Inr (63764452800000000 - 23 * 3600 * 1000000)"
    "datetime 2021 8 11 11 0 0 0 = Inr (63764452800000000 - 25 * 3600 * 1000000)"
    by code_simp+
  show "instant (Stamp 2021 8 12 11 0 0 0) = now (scenario_env st) - 1 * 3600 * 1000000"
    using datetime_instant[OF scenario_stamps_valid(1)] d(1) unfolding n by simp
  show "instant (Stamp 2021 8 11 13 0 0 0) = now (scenario_env st) - 23 * 3600 * 1000000"
    using datetime_instant[OF scenario_stamps_valid(2)] d(2) unfolding n by simp
  show "instant (Stamp 2021 8 11 11 0 0 0) = now (scenario_env st) - 25 * 3600 * 1000000"
    using datetime_instant[OF scenario_stamps_valid(3)] d(3) unfolding n by simp
qed

lemma log_msg_plain: "plain_message log_msg"
  by (simp add: plain_message_def log_msg_def)

lemma log_msg_has_marker: "has_marker log_msg"
  unfolding has_marker_def by (rule exI[of _ "[]"], rule exI[of _ "[]"]) simp



section \<open>The claims\<close>

text \<open>
  C1. The claim: with \<open>retries = r\<close>, \<^verbatim>\<open>ping_host\<close> runs up to \<open>r + 1\<close> rounds and returns
  false only after exactly \<open>r + 1\<close> failed rounds. The loop is
  \<^verbatim>\<open>while count < retries\<close>, starting at \<open>count = 0\<close>: in the specification's scenario
  (\<open>attempts = 4\<close>, \<open>retries = 2\<close>, every probe failing) \<^verbatim>\<open>ping_host\<close> returns false
  after 2 rounds and 16 probes, not after 3 rounds and 24 probes; and with
  \<open>retries = 0\<close> and a host that answers every probe it returns false without a single
  probe.
\<close>

theorem ping_host_gives_up_after_retries_rounds:
  "fst (ping_host scenario_cfg (scenario_env 1) (scenario_state [])) = Inr False
   \<and> length (rounds (trace (snd (ping_host scenario_cfg (scenario_env 1) (scenario_state []))))) = 2
   \<and> probes (trace (snd (ping_host scenario_cfg (scenario_env 1) (scenario_state [])))) = 16
   \<and> fst (ping_host (scenario_cfg\<lparr>retries := 0\<rparr>) (scenario_env 0) (scenario_state [])) = Inr False
   \<and> trace (snd (ping_host (scenario_cfg\<lparr>retries := 0\<rparr>) (scenario_env 0) (scenario_state []))) = []"
  by (simp add: scenario_defs probe_defs)

text \<open>
  C2. With \<open>retries = 0\<close>, \<^verbatim>\<open>ping_host\<close> returns false at once and leaves the state as
  it was (no probe, no event), whatever the environment answers; \<^verbatim>\<open>main\<close> then does
  what \<^verbatim>\<open>notify_and_reboot\<close> does, as for an unreachable host.
\<close>

theorem ping_host_zero_retries:
  assumes "retries cfg = 0"
  shows "ping_host cfg e s = (Inr False, s) \<and> main cfg e s = notify_and_reboot cfg e s"
  using assms by (simp add: ping_host_def ping_host_loop.simps main_def)

theorem ping_host_zero_retries_witness:
  "retries (scenario_cfg\<lparr>retries := 0\<rparr>) = 0
   \<and> ping_host (scenario_cfg\<lparr>retries := 0\<rparr>) (scenario_env 0) (scenario_state [])
       = (Inr False, scenario_state [])
   \<and> main (scenario_cfg\<lparr>retries := 0\<rparr>) (scenario_env 0) (scenario_state [])
       = notify_and_reboot (scenario_cfg\<lparr>retries := 0\<rparr>) (scenario_env 0) (scenario_state [])
   \<and> RebootCmd ''sudo /sbin/shutdown --no-wall --reboot +2''
       \<in> set (trace (snd (main (scenario_cfg\<lparr>retries := 0\<rparr>) (scenario_env 0) (scenario_state []))))"
proof -
  have r: "retries (scenario_cfg\<lparr>retries := 0\<rparr>) = 0" by simp
  have m: "RebootCmd ''sudo /sbin/shutdown --no-wall --reboot +2''
       \<in> set (trace (snd (notify_and_reboot (scenario_cfg\<lparr>retries := 0\<rparr>) (scenario_env 0) (scenario_state []))))"
    by (simp add: scenario_defs notify_and_reboot_def num_reboots_24h_def datetime_sub_hours_def
        MyLog_notify_def Pushover_notify_def send_reboot_cmd_def log_fatal_def log_debug_def emit_def Let_def
        ymd2ord_def days_before_year_def days_before_month_def DAYS_IN_MONTH_def is_leap_def
        day_us_def hour_us_def second_us_def MAXORDINAL_def ascii_decode_def)
  show ?thesis
    using ping_host_zero_retries[OF r, of "scenario_env 0" "scenario_state []"] r m by simp
qed


text \<open>
  C3. In a cycle where the host is judged unreachable and the reboot count of the last
  24 hours is \<open>n\<close>: when \<open>n \<ge> max_reboots_per_day\<close> the cycle makes no local
  notification, no push request and no reboot command; and the cycle issues a reboot
  command exactly when \<open>n < max_reboots_per_day\<close>.
\<close>

theorem throttle_blocks_notification_and_reboot:
  assumes "ping_host cfg e s = (Inr False, s1)" and "num_reboots_24h cfg e s1 = (Inr n, s2)"
  shows "(max_reboots_per_day cfg \<le> n \<longrightarrow>
            (\<forall>x\<in>set (events_since s (snd (main cfg e s))).
                \<not> is_local_notification x \<and> \<not> is_push x \<and> \<not> is_reboot x))
       \<and> ((\<exists>x\<in>set (events_since s (snd (main cfg e s))). is_reboot x) \<longleftrightarrow> n < max_reboots_per_day cfg)"
proof -
  from main_unreachable[OF assms(1)] obtain es where
    m: "main cfg e s = notify_and_reboot cfg e s1" and es: "trace s1 = trace s @ es" "\<forall>x\<in>set es. is_probing x"
    by blast
  have quiet: "\<forall>x\<in>set es. \<not> is_local_notification x \<and> \<not> is_push x \<and> \<not> is_reboot x"
    using es(2) probing_not_action by blast
  show ?thesis
  proof (cases "max_reboots_per_day cfg \<le> n")
    case True
    from notify_and_reboot_throttled(2)[OF assms(2) True]
    have "events_since s (snd (main cfg e s)) = es @
           [ReadLog (log_file cfg), Debug (NumReboots n),
            Fatal ''reboot canceled. max reboots allowed in 24h reached'']"
      unfolding m using es(1) by simp
    with True quiet show ?thesis by (auto simp: log_msg_def)
  next
    case False
    then have lt: "n < max_reboots_per_day cfg" by simp
    note tr = notify_and_reboot_proceeds(2)[OF assms(2) lt]
    have "RebootCmd (if os_nt e then reboot_cmd_win cfg else reboot_cmd_nix cfg)
        \<in> set (events_since s (snd (main cfg e s)))"
      unfolding m events_since_def tr using es(1) by simp
    then have "\<exists>x\<in>set (events_since s (snd (main cfg e s))). is_reboot x"
      by (rule bexI[rotated]) simp
    with lt show ?thesis by simp
  qed
qed

theorem throttle_blocks_notification_and_reboot_witness:
  "ping_host throttled_cfg (scenario_env 1) (scenario_state scenario_log)
      = (Inr False, snd (ping_host throttled_cfg (scenario_env 1) (scenario_state scenario_log)))
   \<and> num_reboots_24h throttled_cfg (scenario_env 1)
         (snd (ping_host throttled_cfg (scenario_env 1) (scenario_state scenario_log)))
      = (Inr 2, emit (ReadLog ''w.log'') (snd (ping_host throttled_cfg (scenario_env 1) (scenario_state scenario_log))))
   \<and> max_reboots_per_day throttled_cfg = 2
   \<and> filter (\<lambda>x. is_local_notification x \<or> is_push x \<or> is_reboot x)
        (events_since (scenario_state scenario_log)
           (snd (main throttled_cfg (scenario_env 1) (scenario_state scenario_log)))) = []"
proof -
  let ?s1 = "snd (ping_host throttled_cfg (scenario_env 1) (scenario_state scenario_log))"
  have n: "num_reboots_24h throttled_cfg (scenario_env 1) ?s1 = (Inr 2, emit (ReadLog ''w.log'') ?s1)"
    using num_reboots_24h_Some[of ?s1 throttled_cfg scenario_log "scenario_env 1" scenario_log,
            OF _ _ scenario_yesterday]
    by (simp add: scenario_ping_down_files scenario_files scenario_log_file scenario_count
          scenario_decode ascii_decode_examples)
  have m: "max_reboots_per_day throttled_cfg = 2" by (simp add: throttled_cfg_def small_cfg_def scenario_cfg_def)
  from throttle_blocks_notification_and_reboot[OF scenario_ping_down n] m
  have "\<forall>x\<in>set (events_since (scenario_state scenario_log)
           (snd (main throttled_cfg (scenario_env 1) (scenario_state scenario_log)))).
          \<not> is_local_notification x \<and> \<not> is_push x \<and> \<not> is_reboot x" by simp
  then have "filter (\<lambda>x. is_local_notification x \<or> is_push x \<or> is_reboot x)
        (events_since (scenario_state scenario_log)
           (snd (main throttled_cfg (scenario_env 1) (scenario_state scenario_log)))) = []"
    by (simp add: filter_empty_conv)
  with scenario_ping_down[of scenario_log] n m show ?thesis by blast
qed


text \<open>
  C4, as amended. In a log file that can be opened and whose bytes decode, read when
  the clock minus 24 hours is a date, \<^verbatim>\<open>num_reboots_24h\<close> returns the number of lines
  that have exactly one \<^verbatim>\<open>|\<close>, whose text after it contains the marker text, and whose
  text before it, cut at its first \<^verbatim>\<open>,\<close> or \<^verbatim>\<open>.\<close>, is in full a
  \<^verbatim>\<open>YYYY-MM-DD HH:MM:SS\<close> text that \<^verbatim>\<open>strptime\<close> accepts, with a time strictly later
  than now minus 24 hours.

  For a log that holds the lines the file handler writes
  (\<^verbatim>\<open>YYYY-MM-DD HH:MM:SS,mmm | message\<close>, each ended by \<^verbatim>\<open>\n\<close>, \<^verbatim>\<open>\r\n\<close> or \<^verbatim>\<open>\r\<close>), for any
  events with a calendar date and time and a one-line message without \<^verbatim>\<open>|\<close>, that
  number is the number of events whose message contains the marker text and whose
  timestamp, by the calendar, is strictly later than now minus 24 hours. In particular
  such a log with three marker lines stamped now - 1h, now - 23h and now - 25h gives 2.
\<close>

theorem num_reboots_24h_counts_recent_marker_lines:
  assumes "files s (log_file cfg) = Some raw" and "decode e raw = Some content"
    and "datetime_sub_hours (now e) 24 = Inr yesterday"
  shows "fst (num_reboots_24h cfg e s)
           = Inr (int (length (filter (counted_line (now e)) (readlines (universal_newlines content)))))
       \<and> (\<forall>eol evs. content = concat (map (logger_line eol) evs)
              \<and> (\<forall>ev\<in>set evs. valid_stamp (fst ev) \<and> plain_message (snd ev))
            \<longrightarrow> fst (num_reboots_24h cfg e s)
                  = Inr (int (length (filter (recent_reboot_event (now e)) evs))))
       \<and> (\<forall>eol t1 t2 t3 m1 m2 m3.
              content = concat (map (logger_line eol) [(t1, m1), (t2, m2), (t3, m3)])
              \<and> valid_stamp t1 \<and> valid_stamp t2 \<and> valid_stamp t3
              \<and> plain_message m1 \<and> plain_message m2 \<and> plain_message m3
              \<and> has_marker m1 \<and> has_marker m2 \<and> has_marker m3
              \<and> instant t1 = now e - 1 * 3600 * 1000000
              \<and> instant t2 = now e - 23 * 3600 * 1000000
              \<and> instant t3 = now e - 25 * 3600 * 1000000
            \<longrightarrow> fst (num_reboots_24h cfg e s) = Inr 2)"
proof (intro conjI allI impI)
  have y: "yesterday = now e - 24 * hour_us" using assms(3) by (rule datetime_sub_hours_Inr)
  have "(\<lambda>l. \<exists>t. scan_line l = Inr (Some t) \<and> t > yesterday) = counted_line (now e)"
    unfolding y by (rule ext) (rule scan_line_counted)
  then show "fst (num_reboots_24h cfg e s)
           = Inr (int (length (filter (counted_line (now e)) (readlines (universal_newlines content)))))"
    by (simp add: num_reboots_24h_Some[OF assms] count_scan_lines)
next
  fix eol evs
  assume "content = concat (map (logger_line eol) evs)
          \<and> (\<forall>ev\<in>set evs. valid_stamp (fst ev) \<and> plain_message (snd ev))"
  then show "fst (num_reboots_24h cfg e s) = Inr (int (length (filter (recent_reboot_event (now e)) evs)))"
    using num_reboots_24h_logger_lines[OF assms] by blast
next
  fix eol t1 t2 t3 m1 m2 m3
  assume a: "content = concat (map (logger_line eol) [(t1, m1), (t2, m2), (t3, m3)])
              \<and> valid_stamp t1 \<and> valid_stamp t2 \<and> valid_stamp t3
              \<and> plain_message m1 \<and> plain_message m2 \<and> plain_message m3
              \<and> has_marker m1 \<and> has_marker m2 \<and> has_marker m3
              \<and> instant t1 = now e - 1 * 3600 * 1000000
              \<and> instant t2 = now e - 23 * 3600 * 1000000
              \<and> instant t3 = now e - 25 * 3600 * 1000000"
  then have c: "content = concat (map (logger_line eol) [(t1, m1), (t2, m2), (t3, m3)])" by simp
  from a have v: "\<forall>ev\<in>set [(t1, m1), (t2, m2), (t3, m3)]. valid_stamp (fst ev) \<and> plain_message (snd ev)"
    by simp
  from a have "length (filter (recent_reboot_event (now e)) [(t1, m1), (t2, m2), (t3, m3)]) = 2"
    by (simp add: recent_reboot_event_def)
  then show "fst (num_reboots_24h cfg e s) = Inr 2"
    unfolding num_reboots_24h_logger_lines[OF assms c v] by simp
qed

theorem num_reboots_24h_counts_recent_marker_lines_witness:
  "files (scenario_state three_line_log) (log_file scenario_cfg) = Some three_line_log
   \<and> decode (scenario_env 1) three_line_log = Some three_line_log
   \<and> datetime_sub_hours (now (scenario_env 1)) 24 = Inr (scenario_now - 24 * hour_us)
   \<and> three_line_log = concat (map (logger_line LF)
       [(Stamp 2021 8 12 11 0 0 0, log_msg), (Stamp 2021 8 11 13 0 0 0, log_msg),
        (Stamp 2021 8 11 11 0 0 0, log_msg)])
   \<and> valid_stamp (Stamp 2021 8 12 11 0 0 0) \<and> valid_stamp (Stamp 2021 8 11 13 0 0 0)
   \<and> valid_stamp (Stamp 2021 8 11 11 0 0 0)
   \<and> plain_message log_msg \<and> has_marker log_msg
   \<and> instant (Stamp 2021 8 12 11 0 0 0) = now (scenario_env 1) - 1 * 3600 * 1000000
   \<and> instant (Stamp 2021 8 11 13 0 0 0) = now (scenario_env 1) - 23 * 3600 * 1000000
   \<and> instant (Stamp 2021 8 11 11 0 0 0) = now (scenario_env 1) - 25 * 3600 * 1000000
   \<and> fst (num_reboots_24h scenario_cfg (scenario_env 1) (scenario_state three_line_log)) = Inr 2
   \<and> length (filter (recent_reboot_event (now (scenario_env 1)))
       [(Stamp 2021 8 12 11 0 0 0, log_msg), (Stamp 2021 8 11 13 0 0 0, log_msg),
        (Stamp 2021 8 11 11 0 0 0, log_msg)]) = 2
   \<and> readlines (universal_newlines three_line_log) = [line_1h, line_23h, line_25h]
   \<and> length (filter (counted_line (now (scenario_env 1))) [line_1h, line_23h, line_25h]) = 2"
proof -
  let ?evs = "[(Stamp 2021 8 12 11 0 0 0, log_msg), (Stamp 2021 8 11 13 0 0 0, log_msg),
        (Stamp 2021 8 11 11 0 0 0, log_msg)]"
  have f: "files (scenario_state three_line_log) (log_file scenario_cfg) = Some three_line_log"
    by (simp add: scenario_files scenario_log_file)
  have d: "decode (scenario_env 1) three_line_log = Some three_line_log"
    by (simp add: scenario_decode ascii_decode_examples)
  note t = num_reboots_24h_counts_recent_marker_lines[OF f d scenario_yesterday[of 1]]
  note t1 = t[THEN conjunct1]
  note t2 = t[THEN conjunct2, THEN conjunct1, rule_format, of LF ?evs]
  note t3 = t[THEN conjunct2, THEN conjunct2, rule_format, of LF
      "Stamp 2021 8 12 11 0 0 0" log_msg "Stamp 2021 8 11 13 0 0 0" log_msg
      "Stamp 2021 8 11 11 0 0 0" log_msg]
  have v: "\<forall>ev\<in>set ?evs. valid_stamp (fst ev) \<and> plain_message (snd ev)"
    using scenario_stamps_valid log_msg_plain by simp
  have two: "fst (num_reboots_24h scenario_cfg (scenario_env 1) (scenario_state three_line_log)) = Inr 2"
    using three_line_log_logger scenario_stamps_valid log_msg_plain log_msg_has_marker
      scenario_instants[of 1]
    by (intro t3 conjI)
  have r: "length (filter (recent_reboot_event (now (scenario_env 1))) ?evs) = 2"
    using t2[OF conjI[OF three_line_log_logger v]] two by simp
  from t1 two have "length (filter (counted_line (now (scenario_env 1)))
                      (readlines (universal_newlines three_line_log))) = 2"
    by simp
  then have c: "length (filter (counted_line (now (scenario_env 1))) [line_1h, line_23h, line_25h]) = 2"
    unfolding three_lines .
  show ?thesis
    using f d scenario_yesterday[of 1] three_line_log_logger scenario_stamps_valid log_msg_plain
      log_msg_has_marker scenario_instants[of 1] two r three_lines c
    by (intro conjI)
qed

text \<open>
  C4 as stated fails on marker lines that carry no sub-second fraction: the text before
  \<^verbatim>\<open>|\<close> then ends with the blank of \<^verbatim>\<open>" | "\<close>, which \<^verbatim>\<open>strptime\<close> rejects. The three
  lines of \<open>plain_log\<close> are stamped now - 1h, now - 23h and now - 25h and the
  specification counts two of them; \<^verbatim>\<open>num_reboots_24h\<close> returns 0.
\<close>

theorem num_reboots_24h_drops_lines_without_fraction:
  "readlines (universal_newlines plain_log) = [plain_1h, plain_23h, plain_25h]
   \<and> spec_fields plain_1h
       = Some (''2021-08-12 11:00:00'', ''(ping-watchdog) ping failed. requesting reboot'' @ [CHR 0x0A])
   \<and> strptime ''2021-08-12 11:00:00'' = Inr (now (scenario_env 1) - 1 * hour_us)
   \<and> strptime ''2021-08-11 13:00:00'' = Inr (now (scenario_env 1) - 23 * hour_us)
   \<and> strptime ''2021-08-11 11:00:00'' = Inr (now (scenario_env 1) - 25 * hour_us)
   \<and> length (filter (spec_counted_line (now (scenario_env 1))) [plain_1h, plain_23h, plain_25h]) = 2
   \<and> fst (num_reboots_24h scenario_cfg (scenario_env 1) (scenario_state plain_log)) = Inr 0"
  unfolding scenario_env_def by code_simp

text \<open>
  C5. When \<^verbatim>\<open>ping\<close> is installed: every round of \<^verbatim>\<open>ping_host\<close> issues exactly
  \<open>2 * attempts\<close> ping commands (as many as \<^verbatim>\<open>range(0, 2 * attempts)\<close> has elements)
  and its failure count is the number of those commands with a non-zero exit status;
  \<^verbatim>\<open>ping_host\<close> returns true exactly when the last round it ran has a failure count
  \<open>\<le> attempts\<close>; every earlier round has a failure count \<open>> attempts\<close>, so the first
  round that succeeds is the last one run; and when it returns true, the last event is
  that round's failure-count line.
\<close>

theorem ping_host_round_policy:
  assumes "ping_on_path e" and "ping_host cfg e s = (r, s')"
  shows "(let rs = rounds (events_since s s'); n = nat (2 * attempts cfg) in
           probes (events_since s s') = length rs * n
         \<and> rs = map (\<lambda>k. failures_from e (npings s + k * n) n) [0..<length rs]
         \<and> (r = Inr True \<longleftrightarrow> rs \<noteq> [] \<and> last rs \<le> attempts cfg)
         \<and> (\<forall>f\<in>set (butlast rs). attempts cfg < f)
         \<and> (r = Inr True \<longrightarrow> last (events_since s s') = Debug (FailedAttempts (last rs))))"
proof -
  from ping_host_loop_spec[OF assms(1) assms(2)[unfolded ping_host_def]]
  obtain es where es: "trace s' = trace s @ es"
       "probes es = length (rounds es) * nat (2 * attempts cfg)"
       "rounds es = map (\<lambda>k. failures_from e (npings s + k * nat (2 * attempts cfg)) (nat (2 * attempts cfg)))
                        [0..<length (rounds es)]"
       "\<forall>f\<in>set (butlast (rounds es)). f > attempts cfg"
       "r = Inr True \<longleftrightarrow> rounds es \<noteq> [] \<and> last (rounds es) \<le> attempts cfg"
       "r = Inr True \<longrightarrow> es \<noteq> [] \<and> last es = Debug (FailedAttempts (last (rounds es)))"
    by blast
  have ev: "events_since s s' = es" using es(1) by simp
  show ?thesis unfolding ev Let_def using es(2-6) by blast
qed

theorem ping_host_round_policy_witness:
  "ping_on_path flaky_env
   \<and> ping_host scenario_cfg flaky_env (scenario_state [])
       = (Inr True, snd (ping_host scenario_cfg flaky_env (scenario_state [])))
   \<and> rounds (events_since (scenario_state []) (snd (ping_host scenario_cfg flaky_env (scenario_state []))))
       = [8, 0]
   \<and> probes (events_since (scenario_state []) (snd (ping_host scenario_cfg flaky_env (scenario_state []))))
       = 2 * 8
   \<and> failures_from flaky_env 0 8 = 8 \<and> failures_from flaky_env 8 8 = 0
   \<and> attempts scenario_cfg = 4
   \<and> last (events_since (scenario_state []) (snd (ping_host scenario_cfg flaky_env (scenario_state []))))
       = Debug (FailedAttempts 0)"
proof -
  have p: "ping_on_path flaky_env" by (simp add: flaky_env_def scenario_defs)
  have "fst (ping_host scenario_cfg flaky_env (scenario_state [])) = Inr True"
    by (simp add: flaky_env_def scenario_defs probe_defs)
  then have h: "ping_host scenario_cfg flaky_env (scenario_state [])
       = (Inr True, snd (ping_host scenario_cfg flaky_env (scenario_state [])))"
    by (simp add: prod_eq_iff)
  have rs: "rounds (events_since (scenario_state []) (snd (ping_host scenario_cfg flaky_env (scenario_state []))))
       = [8, 0]"
    by (simp add: flaky_env_def scenario_defs probe_defs events_since_def)
  have a: "nat (2 * attempts scenario_cfg) = 8" "attempts scenario_cfg = 4" by (simp_all add: scenario_defs)
  have n: "npings (scenario_state []) = 0" by (simp add: scenario_defs)
  show ?thesis
    using ping_host_round_policy[OF p h] p h rs a n by (simp add: Let_def)
qed

text \<open>
  C6. When the reboot count is below \<open>max_reboots_per_day\<close> (the decision is to notify
  and reboot): whatever the outcome of the push request (a response with any status,
  or an exception raised inside the \<^verbatim>\<open>try\<close> block), \<^verbatim>\<open>notify_and_reboot\<close> raises
  nothing and issues the reboot command exactly once, after the push request if one is
  made.
\<close>

theorem push_failure_never_blocks_reboot:
  assumes "num_reboots_24h cfg e s = (Inr n, s1)" and "n < max_reboots_per_day cfg"
  shows "fst (notify_and_reboot cfg (e\<lparr>https := outcome\<rparr>) s) = Inr ()
       \<and> filter is_reboot (events_since s (snd (notify_and_reboot cfg (e\<lparr>https := outcome\<rparr>) s)))
           = [RebootCmd (if os_nt e then reboot_cmd_win cfg else reboot_cmd_nix cfg)]
       \<and> (\<exists>before after.
             events_since s (snd (notify_and_reboot cfg (e\<lparr>https := outcome\<rparr>) s))
               = before @ RebootCmd (if os_nt e then reboot_cmd_win cfg else reboot_cmd_nix cfg) # after
             \<and> filter is_push after = []
             \<and> filter is_push before
                 = (if length (pushover_user_key cfg) < 30 \<or> length (pushover_api_token cfg) < 30 then []
                    else [HttpsPost (''ping failed. performing reboot for '' @ hostname e)
                            (pushover_user_key cfg) (pushover_api_token cfg)]))"
proof -
  let ?e = "e\<lparr>https := outcome\<rparr>"
  let ?cmd = "RebootCmd (if os_nt e then reboot_cmd_win cfg else reboot_cmd_nix cfg)"
  have n: "num_reboots_24h cfg ?e s = (Inr n, s1)" using assms(1) by (simp add: num_reboots_24h_https)
  let ?before = "[ReadLog (log_file cfg), Debug (NumReboots n), Fatal log_msg]
           @ (if os_nt e then [] else [LoggerCmd log_msg])
           @ (if length (pushover_user_key cfg) < 30 \<or> length (pushover_api_token cfg) < 30
              then [Debug PushoverNotConfigured]
              else [HttpsPost (''ping failed. performing reboot for '' @ hostname e)
                      (pushover_user_key cfg) (pushover_api_token cfg),
                    Debug (if outcome = Status 200 then PushoverSent else PushoverFailed)])"
  let ?after = "(if reboot_status e \<noteq> 0 then [Fatal ''reboot command failed''] else [])"
  have ev: "events_since s (snd (notify_and_reboot cfg ?e s)) = ?before @ ?cmd # ?after"
    unfolding events_since_def notify_and_reboot_proceeds(2)[OF n assms(2)] by simp
  have r: "fst (notify_and_reboot cfg ?e s) = Inr ()"
    using notify_and_reboot_proceeds(1)[OF n assms(2)] .
  have fr: "filter is_reboot (events_since s (snd (notify_and_reboot cfg ?e s))) = [?cmd]"
    unfolding ev by simp
  have fb: "filter is_push ?before
        = (if length (pushover_user_key cfg) < 30 \<or> length (pushover_api_token cfg) < 30 then []
           else [HttpsPost (''ping failed. performing reboot for '' @ hostname e)
                            (pushover_user_key cfg) (pushover_api_token cfg)])"
    by simp
  have fa: "filter is_push ?after = []" by simp
  from r fr ev fb fa show ?thesis by blast
qed

theorem push_failure_never_blocks_reboot_witness:
  "num_reboots_24h push_cfg (scenario_env 1) (scenario_state [])
      = (Inr 0, emit (ReadLog ''w.log'') (scenario_state []))
   \<and> 0 < max_reboots_per_day push_cfg
   \<and> fst (notify_and_reboot push_cfg ((scenario_env 1)\<lparr>https := Status 500\<rparr>) (scenario_state [])) = Inr ()
   \<and> events_since (scenario_state [])
        (snd (notify_and_reboot push_cfg ((scenario_env 1)\<lparr>https := Status 500\<rparr>) (scenario_state [])))
      = [ReadLog ''w.log'', Debug (NumReboots 0), Fatal log_msg, LoggerCmd log_msg,
         HttpsPost ''ping failed. performing reboot for box'' (replicate 30 CHR ''u'') (replicate 30 CHR ''a''),
         Debug PushoverFailed,
         RebootCmd ''sudo /sbin/shutdown --no-wall --reboot +2'']
   \<and> fst (notify_and_reboot push_cfg ((scenario_env 1)\<lparr>https := Raised\<rparr>) (scenario_state [])) = Inr ()
   \<and> filter is_reboot (events_since (scenario_state [])
        (snd (notify_and_reboot push_cfg ((scenario_env 1)\<lparr>https := Raised\<rparr>) (scenario_state []))))
      = [RebootCmd ''sudo /sbin/shutdown --no-wall --reboot +2'']"
proof -
  have lf: "log_file push_cfg = ''w.log''"
    by (simp add: push_cfg_def small_cfg_def scenario_cfg_def config_items_def)
  have n: "num_reboots_24h push_cfg (scenario_env 1) (scenario_state [])
      = (Inr 0, emit (ReadLog ''w.log'') (scenario_state []))"
    by (simp add: empty_log_count lf)
  have m: "0 < max_reboots_per_day push_cfg"
    by (simp add: push_cfg_def small_cfg_def scenario_cfg_def config_items_def)
  have cmd: "(if os_nt (scenario_env 1) then reboot_cmd_win push_cfg else reboot_cmd_nix push_cfg)
       = ''sudo /sbin/shutdown --no-wall --reboot +2''"
    by (simp add: push_cfg_def small_cfg_def scenario_cfg_def config_items_def scenario_env_def)
  have ev: "events_since (scenario_state [])
        (snd (notify_and_reboot push_cfg ((scenario_env 1)\<lparr>https := Status 500\<rparr>) (scenario_state [])))
      = [ReadLog ''w.log'', Debug (NumReboots 0), Fatal log_msg, LoggerCmd log_msg,
         HttpsPost ''ping failed. performing reboot for box'' (replicate 30 CHR ''u'') (replicate 30 CHR ''a''),
         Debug PushoverFailed,
         RebootCmd ''sudo /sbin/shutdown --no-wall --reboot +2'']"
    by code_simp
  from push_failure_never_blocks_reboot[OF n m, of "Status 500"]
       push_failure_never_blocks_reboot[OF n m, of Raised] n m ev
  show ?thesis unfolding cmd by simp
qed


text \<open>
  C7, as amended. In a log file that can be opened and whose bytes the locale's codec
  decodes, read when the clock minus 24 hours is a date: a line without the delimiter,
  or a line \<open>dt|rest\<close> whose timestamp does not parse or whose message \<open>rest\<close> does not
  contain the marker text (whatever its timestamp), makes the \<^verbatim>\<open>try\<close> block raise
  ValueError or append nothing; \<^verbatim>\<open>num_reboots_24h\<close> raises nothing and returns the count
  of the log without that line.
\<close>

theorem malformed_lines_skipped:
  assumes "files s (log_file cfg) = Some raw" and "decode e raw = Some content"
    and "readlines (universal_newlines content) = pre @ line # post"
    and "datetime_sub_hours (now e) 24 = Inr yesterday"
    and "CHR ''|'' \<notin> set line
         \<or> (\<exists>dt rest. line = dt @ CHR ''|'' # rest
               \<and> (strptime (discard_millisecs dt) = Inl ValueError \<or> str_find rest log_msg = - 1))"
  shows "(scan_line line = Inl ValueError \<or> scan_line line = Inr None)
       \<and> fst (num_reboots_24h cfg e s) = Inr (count_recent yesterday (scan_lines (pre @ post) []) 0)"
proof -
  have sk: "scan_line line = Inl ValueError \<or> scan_line line = Inr None"
    using assms(5) scan_line_no_delimiter scan_line_skipped by blast
  then have "\<forall>t. scan_line line \<noteq> Inr (Some t)" by auto
  from num_reboots_24h_skips[OF assms(1-4) this] sk show ?thesis by simp
qed

theorem malformed_lines_skipped_witness:
  "files (scenario_state scenario_log) (log_file scenario_cfg) = Some scenario_log
   \<and> decode (scenario_env 1) scenario_log = Some scenario_log
   \<and> datetime_sub_hours (now (scenario_env 1)) 24 = Inr (scenario_now - 24 * hour_us)
   \<and> readlines (universal_newlines scenario_log)
       = [line_1h, line_23h, line_25h] @ line_no_delimiter # [line_bad_date, line_other_message, line_two_delimiters]
   \<and> CHR ''|'' \<notin> set line_no_delimiter
   \<and> scan_line line_no_delimiter = Inl ValueError
   \<and> readlines (universal_newlines scenario_log)
       = [line_1h, line_23h, line_25h, line_no_delimiter] @ line_bad_date # [line_other_message, line_two_delimiters]
   \<and> line_bad_date = ''2021-02-30 11:20:00,000 '' @ CHR ''|'' #
                       ('' (ping-watchdog) ping failed. requesting reboot'' @ [CHR 0x0A])
   \<and> strptime (discard_millisecs ''2021-02-30 11:20:00,000 '') = Inl ValueError
   \<and> scan_line line_bad_date = Inl ValueError
   \<and> readlines (universal_newlines scenario_log)
       = [line_1h, line_23h, line_25h, line_no_delimiter, line_bad_date] @ line_other_message # [line_two_delimiters]
   \<and> line_other_message = ''2021-08-12 11:30:00,000 '' @ CHR ''|'' # ('' no reboot required'' @ [CHR 0x0A])
   \<and> strptime (discard_millisecs ''2021-08-12 11:30:00,000 '') = Inr (scenario_now - 30 * 60 * second_us)
   \<and> str_find ('' no reboot required'' @ [CHR 0x0A]) log_msg = - 1
   \<and> scan_line line_other_message = Inr None
   \<and> count_recent (scenario_now - 24 * hour_us) (scan_lines [line_1h, line_23h, line_25h] []) 0 = 2
   \<and> fst (num_reboots_24h scenario_cfg (scenario_env 1) (scenario_state scenario_log)) = Inr 2"
proof -
  have f: "files (scenario_state scenario_log) (log_file scenario_cfg) = Some scenario_log"
    by (simp add: scenario_files scenario_log_file)
  have d: "decode (scenario_env 1) scenario_log = Some scenario_log"
    by (simp add: scenario_decode ascii_decode_examples)
  note y = scenario_yesterday[of 1]
  have l1: "readlines (universal_newlines scenario_log)
       = [line_1h, line_23h, line_25h] @ line_no_delimiter # [line_bad_date, line_other_message, line_two_delimiters]"
    by (simp add: scenario_lines)
  have h1: "CHR ''|'' \<notin> set line_no_delimiter" by (simp add: line_no_delimiter_def)
  have l2: "readlines (universal_newlines scenario_log)
       = [line_1h, line_23h, line_25h, line_no_delimiter] @ line_bad_date # [line_other_message, line_two_delimiters]"
    by (simp add: scenario_lines)
  have d2: "line_bad_date = ''2021-02-30 11:20:00,000 '' @ CHR ''|'' #
                       ('' (ping-watchdog) ping failed. requesting reboot'' @ [CHR 0x0A])"
    by (simp add: line_bad_date_def)
  have p2: "strptime (discard_millisecs ''2021-02-30 11:20:00,000 '') = Inl ValueError" by code_simp
  have l3: "readlines (universal_newlines scenario_log)
       = [line_1h, line_23h, line_25h, line_no_delimiter, line_bad_date] @ line_other_message # [line_two_delimiters]"
    by (simp add: scenario_lines)
  have d3: "line_other_message = ''2021-08-12 11:30:00,000 '' @ CHR ''|'' # ('' no reboot required'' @ [CHR 0x0A])"
    by (simp add: line_other_message_def)
  have p3: "strptime (discard_millisecs ''2021-08-12 11:30:00,000 '') = Inr (scenario_now - 30 * 60 * second_us)"
    by code_simp
  have m3: "str_find ('' no reboot required'' @ [CHR 0x0A]) log_msg = - 1" by code_simp
  have c: "count_recent (scenario_now - 24 * hour_us) (scan_lines [line_1h, line_23h, line_25h] []) 0 = 2"
    using hour_us_pos by (simp add: scan_line_examples)
  have t1: "scan_line line_no_delimiter = Inl ValueError
     \<and> fst (num_reboots_24h scenario_cfg (scenario_env 1) (scenario_state scenario_log)) = Inr 2"
    using malformed_lines_skipped[OF f d l1 y] h1 hour_us_pos by (simp add: scan_line_examples)
  have t2: "scan_line line_bad_date = Inl ValueError"
    using malformed_lines_skipped[OF f d l2 y] d2 p2 by (simp add: scan_line_examples)
  have t3: "scan_line line_other_message = Inr None"
    using malformed_lines_skipped[OF f d l3 y] d3 m3 by (simp add: scan_line_examples)
  from f d y l1 h1 l2 d2 p2 l3 d3 p3 m3 c t1 t2 t3 show ?thesis by blast
qed

text \<open>
  C7 as stated fails where the log's bytes do not decode: \<^verbatim>\<open>f.readlines()\<close> stands
  before the \<^verbatim>\<open>try\<close> block, so with a line that has no delimiter and holds the byte
  \<open>0xFF\<close> \<^verbatim>\<open>num_reboots_24h\<close> raises UnicodeDecodeError instead of skipping the line.
\<close>

theorem malformed_line_undecodable_raises:
  "CHR ''|'' \<notin> set line_bad_byte
   \<and> files (scenario_state bad_byte_log) (log_file scenario_cfg) = Some (line_1h @ line_bad_byte)
   \<and> decode (scenario_env 1) (line_1h @ line_bad_byte) = None
   \<and> fst (num_reboots_24h scenario_cfg (scenario_env 1) (scenario_state bad_byte_log))
       = Inl UnicodeDecodeError"
proof -
  have a: "CHR ''|'' \<notin> set line_bad_byte" by (simp add: line_bad_byte_def)
  have f: "files (scenario_state bad_byte_log) (log_file scenario_cfg) = Some (line_1h @ line_bad_byte)"
    by (simp add: scenario_files scenario_log_file bad_byte_log_def)
  have d: "decode (scenario_env 1) (line_1h @ line_bad_byte) = None"
    unfolding scenario_decode by code_simp
  from f d have "fst (num_reboots_24h scenario_cfg (scenario_env 1) (scenario_state bad_byte_log))
       = Inl UnicodeDecodeError"
    by (simp add: num_reboots_24h_def)
  with a f d show ?thesis by blast
qed

text \<open>
  C8. In every cycle that reads the log: no \<^verbatim>\<open>logger.fatal\<close> line (the only writes to
  the log file) comes before the read, the log is not read again after it, the file
  read is \<open>log_file\<close> with the content it had when the cycle began, and the count the
  cycle reports is the count of that content; so a marker line appended in the cycle is
  not among the lines it counts.
\<close>

theorem history_read_precedes_append:
  assumes "main cfg e s = (r, s')" and "events_since s s' = before @ ReadLog p # after"
  shows "(\<forall>x\<in>set before. \<not> is_fatal x)
       \<and> (\<forall>x\<in>set after. \<not> is_read_log x)
       \<and> p = log_file cfg
       \<and> (\<exists>raw. files s (log_file cfg) = Some raw
            \<and> (\<forall>n. Debug (NumReboots n) \<in> set after \<longrightarrow>
                  (\<exists>content. decode e raw = Some content
                     \<and> n = count_recent (now e - 24 * hour_us)
                           (scan_lines (readlines (universal_newlines content)) []) 0)))"
proof -
  obtain r1 s1 where ph: "ping_host cfg e s = (r1, s1)" by (cases "ping_host cfg e s")
  from ping_host_general[OF ph] obtain es where es: "trace s1 = trace s @ es"
    "\<forall>x\<in>set es. is_probing x \<or> x = Fatal ''ping command not found''"
    "(\<exists>b. r1 = Inr b) \<longrightarrow> files s1 = files s \<and> (\<forall>x\<in>set es. is_probing x)" by blast
  have nr: "\<forall>x\<in>set es. \<not> is_read_log x" using es(2) by (auto dest: probing_not_action)
  have rl: "is_read_log (ReadLog p)" by simp
  show ?thesis
  proof (cases r1)
    case (Inl err)
    with ph assms(1) have "s' = s1" by (auto simp: main_def)
    with es(1) assms(2) have "es = before @ ReadLog p # after" by simp
    with no_split_without[where P=is_read_log, OF nr rl] show ?thesis by blast
  next
    case (Inr reachable)
    with es(3) have fs: "files s1 = files s" and pr: "\<forall>x\<in>set es. is_probing x" by auto
    show ?thesis
    proof (cases reachable)
      case True
      with Inr ph assms(1) have "s' = log_fatal e ''no reboot required'' s1" by (auto simp: main_def)
      with es(1) assms(2) have "es @ [Fatal ''no reboot required''] = before @ ReadLog p # after" by simp
      moreover have "\<forall>x\<in>set (es @ [Fatal ''no reboot required'']). \<not> is_read_log x" using nr by simp
      ultimately show ?thesis using no_split_without[where P=is_read_log, OF _ rl] by metis
    next
      case False
      with Inr ph assms(1) have m: "notify_and_reboot cfg e s1 = (r, s')" by (auto simp: main_def)
      obtain rn s2 where n: "num_reboots_24h cfg e s1 = (rn, s2)" by (cases "num_reboots_24h cfg e s1")
      from num_reboots_24h_cases[OF n, unfolded fs]
      consider (nofile) "rn = Inl OSError" "s2 = s1"
        | (overflow) raw err where "files s (log_file cfg) = Some raw"
            "s2 = emit (ReadLog (log_file cfg)) s1" "rn = Inl err"
        | (count) raw content y where "files s (log_file cfg) = Some raw"
            "decode e raw = Some content"
            "s2 = emit (ReadLog (log_file cfg)) s1" "datetime_sub_hours (now e) 24 = Inr y"
            "rn = Inr (count_recent y (scan_lines (readlines (universal_newlines content)) []) 0)"
        by blast
      then show ?thesis
      proof cases
        case nofile
        with n m have "s' = s1" by (auto simp: notify_and_reboot_def)
        with es(1) assms(2) have "es = before @ ReadLog p # after" by simp
        with no_split_without[where P=is_read_log, OF nr rl] show ?thesis by blast
      next
        case overflow
        with n m have "s' = emit (ReadLog (log_file cfg)) s1" by (auto simp: notify_and_reboot_def)
        with es(1) assms(2) have "es @ ReadLog (log_file cfg) # [] = before @ ReadLog p # after" by simp
        from split_at_unique[where P=is_read_log, OF nr _ rl this]
        have "before = es" "p = log_file cfg" "after = []" by simp_all
        with pr overflow(1) show ?thesis by (auto dest: probing_not_action)
      next
        case count
        let ?n = "count_recent y (scan_lines (readlines (universal_newlines content)) []) 0"
        have y: "y = now e - 24 * hour_us" using count(4) by (rule datetime_sub_hours_Inr)
        have n': "num_reboots_24h cfg e s1 = (Inr ?n, s2)" using n count(5) by simp
        obtain rest where rest: "trace s' = trace s1 @ ReadLog (log_file cfg) # rest"
          "\<forall>x\<in>set rest. \<not> is_read_log x"
          "\<forall>k. Debug (NumReboots k) \<in> set rest \<longrightarrow> k = ?n"
        proof (cases "max_reboots_per_day cfg \<le> ?n")
          case True
          from notify_and_reboot_throttled(2)[OF n' True] m
          have "trace s' = trace s1 @ ReadLog (log_file cfg) #
                  [Debug (NumReboots ?n), Fatal ''reboot canceled. max reboots allowed in 24h reached'']"
            by simp
          then show ?thesis by (rule that) simp_all
        next
          case False
          then have lt: "?n < max_reboots_per_day cfg" by simp
          from notify_and_reboot_proceeds(2)[OF n' lt] m
          have "trace s' = trace s1 @ ReadLog (log_file cfg) #
             ([Debug (NumReboots ?n), Fatal log_msg]
              @ (if os_nt e then [] else [LoggerCmd log_msg])
              @ (if length (pushover_user_key cfg) < 30 \<or> length (pushover_api_token cfg) < 30
                 then [Debug PushoverNotConfigured]
                 else [HttpsPost (''ping failed. performing reboot for '' @ hostname e)
                      (pushover_user_key cfg) (pushover_api_token cfg),
                    Debug (if https e = Status 200 then PushoverSent else PushoverFailed)])
              @ RebootCmd (if os_nt e then reboot_cmd_win cfg else reboot_cmd_nix cfg)
              # (if reboot_status e \<noteq> 0 then [Fatal ''reboot command failed''] else []))"
            by simp
          then show ?thesis by (rule that) auto
        qed
        from rest(1) es(1) assms(2) have "es @ ReadLog (log_file cfg) # rest = before @ ReadLog p # after"
          by simp
        from split_at_unique[where P=is_read_log, OF nr rest(2) rl this]
        have "before = es" "p = log_file cfg" "after = rest" by simp_all
        with pr count(1,2) rest(2,3) y show ?thesis by (auto dest: probing_not_action)
      qed
    qed
  qed
qed

theorem history_read_precedes_append_witness:
  "main small_cfg (scenario_env 1) (scenario_state [])
      = (Inr (), snd (main small_cfg (scenario_env 1) (scenario_state [])))
   \<and> events_since (scenario_state []) (snd (main small_cfg (scenario_env 1) (scenario_state [])))
      = [Debug (Pinging ''127.0.0.1''), PingCmd ''ping -c 1 -W'' 2 ''127.0.0.1'' ''/dev/null'',
         Debug (Pinging ''127.0.0.1''), PingCmd ''ping -c 1 -W'' 2 ''127.0.0.1'' ''/dev/null'',
         Debug (FailedAttempts 2)]
        @ ReadLog ''w.log'' #
        [Debug (NumReboots 0), Fatal log_msg, LoggerCmd log_msg, Debug PushoverNotConfigured,
         RebootCmd ''sudo /sbin/shutdown --no-wall --reboot +2'']
   \<and> log_file small_cfg = ''w.log''
   \<and> files (scenario_state []) (log_file small_cfg) = Some []
   \<and> decode (scenario_env 1) [] = Some []
   \<and> count_recent (now (scenario_env 1) - 24 * hour_us) (scan_lines (readlines (universal_newlines [])) []) 0 = 0
   \<and> files (snd (main small_cfg (scenario_env 1) (scenario_state []))) ''w.log''
        = Some (''2021-08-12 12:00:00,000 | (ping-watchdog) ping failed. requesting reboot'' @ [CHR 0x0A])
   \<and> fst (num_reboots_24h small_cfg (scenario_env 1)
             (snd (main small_cfg (scenario_env 1) (scenario_state [])))) = Inr 1"
proof -
  let ?s' = "snd (main small_cfg (scenario_env 1) (scenario_state []))"
  have h1: "main small_cfg (scenario_env 1) (scenario_state []) = (Inr (), ?s')"
    using small_run_result by (simp add: prod_eq_iff)
  have h2: "events_since (scenario_state []) ?s'
      = [Debug (Pinging ''127.0.0.1''), PingCmd ''ping -c 1 -W'' 2 ''127.0.0.1'' ''/dev/null'',
         Debug (Pinging ''127.0.0.1''), PingCmd ''ping -c 1 -W'' 2 ''127.0.0.1'' ''/dev/null'',
         Debug (FailedAttempts 2)]
        @ ReadLog ''w.log'' #
        [Debug (NumReboots 0), Fatal log_msg, LoggerCmd log_msg, Debug PushoverNotConfigured,
         RebootCmd ''sudo /sbin/shutdown --no-wall --reboot +2'']"
    unfolding events_since_def small_run_trace by (simp add: scenario_state_def)
  from history_read_precedes_append[OF h1 h2]
  have c: "count_recent (now (scenario_env 1) - 24 * hour_us) (scan_lines (readlines (universal_newlines [])) []) 0 = 0"
    by (simp add: scenario_files scenario_decode ascii_decode_examples)
  have f: "files (scenario_state []) (log_file small_cfg) = Some []"
    by (simp add: scenario_files scenario_log_file)
  have d: "decode (scenario_env 1) [] = Some []"
    by (simp add: scenario_decode ascii_decode_examples)
  from h1 h2 c f d scenario_log_file(2) small_run_file small_run_next_count show ?thesis by blast
qed


text \<open>
  C9. When the user key or the API token has fewer than 30 characters,
  \<^verbatim>\<open>Pushover.notify\<close> only logs the debug line \<open>PushoverNotConfigured\<close>; a cycle run
  with such credentials makes no push request, and neither does a cycle run with the
  default settings of \<open>config_items\<close>, whose credentials are empty.
\<close>

theorem pushover_unconfigured_sends_nothing:
  assumes "length (key self) < 30 \<or> length (token self) < 30"
  shows "Pushover_notify self e s = log_debug PushoverNotConfigured s
       \<and> events_since s (Pushover_notify self e s) = [Debug PushoverNotConfigured]
       \<and> (\<forall>cfg s0. pushover_user_key cfg = key self \<and> pushover_api_token cfg = token self
             \<longrightarrow> filter is_push (events_since s0 (snd (main cfg e s0))) = [])
       \<and> filter is_push (events_since s (snd (main (config_items lf) e s))) = []"
proof -
  have a: "Pushover_notify self e s = log_debug PushoverNotConfigured s"
    using assms by (simp add: Pushover_notify_def)
  have b: "events_since s (Pushover_notify self e s) = [Debug PushoverNotConfigured]"
    unfolding a by (simp add: events_since_def)
  have c: "filter is_push (events_since s0 (snd (main cfg e s0))) = []"
    if "pushover_user_key cfg = key self \<and> pushover_api_token cfg = token self" for cfg s0
    using main_no_push[of cfg s0 e] that assms by simp
  have d: "filter is_push (events_since s (snd (main (config_items lf) e s))) = []"
    by (rule main_no_push) (simp add: config_items_def)
  from a b c d show ?thesis by blast
qed

theorem pushover_unconfigured_sends_nothing_witness:
  "length (key \<lparr>key = pushover_user_key small_cfg, token = pushover_api_token small_cfg\<rparr>) < 30
   \<and> pushover_user_key small_cfg = []
   \<and> Pushover_notify \<lparr>key = pushover_user_key small_cfg, token = pushover_api_token small_cfg\<rparr>
         (scenario_env 1) (scenario_state [])
       = log_debug PushoverNotConfigured (scenario_state [])
   \<and> events_since (scenario_state [])
        (Pushover_notify \<lparr>key = pushover_user_key small_cfg, token = pushover_api_token small_cfg\<rparr>
           (scenario_env 1) (scenario_state []))
       = [Debug PushoverNotConfigured]
   \<and> filter is_push (events_since (scenario_state []) (snd (main small_cfg (scenario_env 1) (scenario_state [])))) = []
   \<and> filter is_reboot (events_since (scenario_state []) (snd (main small_cfg (scenario_env 1) (scenario_state []))))
       = [RebootCmd ''sudo /sbin/shutdown --no-wall --reboot +2'']"
proof -
  let ?p = "\<lparr>key = pushover_user_key small_cfg, token = pushover_api_token small_cfg\<rparr>"
  have k: "pushover_user_key small_cfg = []"
    by (simp add: small_cfg_def scenario_cfg_def config_items_def)
  then have h: "length (key ?p) < 30 \<or> length (token ?p) < 30" by simp
  have r: "filter is_reboot (events_since (scenario_state []) (snd (main small_cfg (scenario_env 1) (scenario_state []))))
       = [RebootCmd ''sudo /sbin/shutdown --no-wall --reboot +2'']"
    unfolding events_since_def small_run_trace by (simp add: scenario_state_def)
  note t = pushover_unconfigured_sends_nothing[OF h, of "scenario_env 1" "scenario_state []" "''w.log''"]
  from t have "filter is_push (events_since (scenario_state []) (snd (main small_cfg (scenario_env 1) (scenario_state [])))) = []"
    by simp
  with t k r show ?thesis by simp
qed


text \<open>
  C10. A log line with more than one \<^verbatim>\<open>|\<close> makes \<^verbatim>\<open>line.split('|')\<close> yield more than
  two pieces, so the unpacking raises ValueError and the line is skipped, whatever its
  timestamp and message: for a log that decodes, \<^verbatim>\<open>num_reboots_24h\<close> returns the count
  of the log without that line.
\<close>

theorem line_with_two_delimiters_skipped:
  assumes "files s (log_file cfg) = Some raw" and "decode e raw = Some content"
    and "readlines (universal_newlines content) = pre @ line # post"
    and "datetime_sub_hours (now e) 24 = Inr yesterday"
    and "1 < length (filter (\<lambda>c. c = CHR ''|'') line)"
  shows "scan_line line = Inl ValueError
       \<and> fst (num_reboots_24h cfg e s) = Inr (count_recent yesterday (scan_lines (pre @ post) []) 0)"
proof -
  have sk: "scan_line line = Inl ValueError" using assms(5) by (rule scan_line_two_delimiters)
  then have "\<forall>t. scan_line line \<noteq> Inr (Some t)" by auto
  from num_reboots_24h_skips[OF assms(1-4) this] sk show ?thesis by simp
qed

theorem line_with_two_delimiters_skipped_witness:
  "files (scenario_state scenario_log) (log_file scenario_cfg) = Some scenario_log
   \<and> decode (scenario_env 1) scenario_log = Some scenario_log
   \<and> datetime_sub_hours (now (scenario_env 1)) 24 = Inr (scenario_now - 24 * hour_us)
   \<and> readlines (universal_newlines scenario_log)
       = [line_1h, line_23h, line_25h, line_no_delimiter, line_bad_date, line_other_message] @ line_two_delimiters # []
   \<and> length (filter (\<lambda>c. c = CHR ''|'') line_two_delimiters) = 2
   \<and> str_find line_two_delimiters log_msg = 26
   \<and> strptime (discard_millisecs line_two_delimiters) = Inr (scenario_now - 20 * 60 * second_us)
   \<and> scan_line line_two_delimiters = Inl ValueError
   \<and> fst (num_reboots_24h scenario_cfg (scenario_env 1) (scenario_state scenario_log)) = Inr 2"
proof -
  have f: "files (scenario_state scenario_log) (log_file scenario_cfg) = Some scenario_log"
    by (simp add: scenario_files scenario_log_file)
  have d: "decode (scenario_env 1) scenario_log = Some scenario_log"
    by (simp add: scenario_decode ascii_decode_examples)
  note y = scenario_yesterday[of 1]
  have l: "readlines (universal_newlines scenario_log)
       = [line_1h, line_23h, line_25h, line_no_delimiter, line_bad_date, line_other_message] @ line_two_delimiters # []"
    by (simp add: scenario_lines)
  have n: "length (filter (\<lambda>c. c = CHR ''|'') line_two_delimiters) = 2" by (simp add: line_two_delimiters_def)
  have m: "str_find line_two_delimiters log_msg = 26" by code_simp
  have p: "strptime (discard_millisecs line_two_delimiters) = Inr (scenario_now - 20 * 60 * second_us)" by code_simp
  have t: "scan_line line_two_delimiters = Inl ValueError
     \<and> fst (num_reboots_24h scenario_cfg (scenario_env 1) (scenario_state scenario_log)) = Inr 2"
    using line_with_two_delimiters_skipped[OF f d l y] n hour_us_pos by (simp add: scan_line_examples)
  from f d y l n m p t show ?thesis by blast
qed


end
